theory Spec2Isabelle
  imports Main "HOL-Library.Word"
begin

chapter \<open>WatermarkRemover: zone timeline, mask synthesis and the processing pipeline\<close>

section \<open>Python values, exceptions, dictionaries and the object store\<close>

text \<open>
  Exceptions of the source are values of \<open>error\<close>; a function that can raise returns
  \<open>error + 'a\<close> with \<open>Inl\<close> the exception.
\<close>

datatype error =
    ValueError | AttributeError | KeyError | IndexError | TypeError | InterruptedError
  | FileNotFoundError | CalledProcessError | JSONDecodeError | IOError | ImportError
  | RuntimeError

text \<open>
  The Python values that zones, timelines and loaded JSON documents are made of.
  A tuple and a list with the same elements are different values, as in Python
  (\<open>(1, 2) == [1, 2]\<close> is \<open>False\<close>).  JSON numbers with a fraction are left out.
\<close>

datatype pyval =
    PNone
  | PBool bool
  | PInt int
  | PStr string
  | PList "pyval list"
  | PTuple "pyval list"
  | PDict "(string \<times> pyval) list"

text \<open>
  A \<open>dict\<close> is an association list in insertion order with distinct keys: storing under a
  key that is present replaces the value in place, storing under a new key appends.
\<close>

type_synonym ('k, 'v) dict = "('k \<times> 'v) list"

fun dict_set :: "('k, 'v) dict \<Rightarrow> 'k \<Rightarrow> 'v \<Rightarrow> ('k, 'v) dict" where
  "dict_set [] k v = [(k, v)]"
| "dict_set ((k', v') # d) k v =
     (if k' = k then (k', v) # d else (k', v') # dict_set d k v)"

definition dict_of_items :: "('k \<times> 'v) list \<Rightarrow> ('k, 'v) dict" where
  "dict_of_items kvs = foldl (\<lambda>d (k, v). dict_set d k v) [] kvs"

definition dict_keys :: "('k, 'v) dict \<Rightarrow> 'k list" where
  "dict_keys d = map fst d"

text \<open>
  List objects are mutable and shared by reference, so the lists a timeline stores live in
  an object store: \<open>cells\<close> maps an address to the object there, \<open>top\<close> is the next free
  address.  A Python reference always points to an object, so reading a cell is total.
\<close>

type_synonym addr = nat

record heap =
  cells :: "addr \<Rightarrow> pyval"
  top :: addr

definition alloc :: "heap \<Rightarrow> pyval \<Rightarrow> addr \<times> heap" where
  "alloc h v = (top h, h\<lparr>cells := (cells h)(top h := v), top := Suc (top h)\<rparr>)"

text \<open>\<open>xs.copy()\<close>: lists and dicts have the method, the other values of \<open>pyval\<close> do not.\<close>

fun py_copy :: "pyval \<Rightarrow> error + pyval" where
  "py_copy (PList xs) = Inr (PList xs)"
| "py_copy (PDict d) = Inr (PDict d)"
| "py_copy _ = Inl AttributeError"

text \<open>\<open>xs.append(v)\<close> and \<open>xs.pop(i)\<close> on the list object at an address.\<close>

definition list_append :: "heap \<Rightarrow> addr \<Rightarrow> pyval \<Rightarrow> (error + unit) \<times> heap" where
  "list_append h a v =
     (case cells h a of
        PList xs \<Rightarrow> (Inr (), h\<lparr>cells := (cells h)(a := PList (xs @ [v]))\<rparr>)
      | _ \<Rightarrow> (Inl AttributeError, h))"

definition list_pop :: "heap \<Rightarrow> addr \<Rightarrow> int \<Rightarrow> (error + pyval) \<times> heap" where
  "list_pop h a i =
     (case cells h a of
        PList xs \<Rightarrow>
          (let j = (if 0 \<le> i then i else i + int (length xs))
           in if j < 0 \<or> int (length xs) \<le> j then (Inl IndexError, h)
              else (Inr (xs ! nat j),
                    h\<lparr>cells := (cells h)(a := PList (take (nat j) xs @ drop (Suc (nat j)) xs))\<rparr>))
      | _ \<Rightarrow> (Inl AttributeError, h))"

section \<open>KeyframeManager (src/core/keyframe\_manager.py)\<close>

text \<open>
  The attribute \<open>_keyframes\<close>: a dict from frame number to (a reference to) the list of
  zones of that keyframe.
\<close>

record KeyframeManager =
  keyframes :: "(int, addr) dict"

definition init_manager :: KeyframeManager where
  "init_manager = \<lparr>keyframes = []\<rparr>"

text \<open>\<open>add_zone\<close>: create the keyframe's list when the frame is new, then append to it.\<close>

definition add_zone ::
  "KeyframeManager \<Rightarrow> heap \<Rightarrow> int \<Rightarrow> pyval \<Rightarrow> (error + unit) \<times> KeyframeManager \<times> heap" where
  "add_zone self h frame zone =
     (let (self1, h1) =
            (if map_of (keyframes self) frame = None
             then (let (a, h') = alloc h (PList [])
                   in (self\<lparr>keyframes := dict_set (keyframes self) frame a\<rparr>, h'))
             else (self, h))
      in case map_of (keyframes self1) frame of
           None \<Rightarrow> (Inl KeyError, self1, h1)
         | Some a \<Rightarrow> (let (r, h2) = list_append h1 a zone in (r, self1, h2)))"

text \<open>
  \<open>get_zones_at_frame\<close>: the empty timeline and the frame before every keyframe give a new
  empty list; otherwise \<open>max\<close> of the keys at or before the frame selects the keyframe and
  \<open>.copy()\<close> allocates a new list with the same elements.
\<close>

definition get_zones_at_frame ::
  "KeyframeManager \<Rightarrow> heap \<Rightarrow> int \<Rightarrow> (error + addr) \<times> heap" where
  "get_zones_at_frame self h frame =
     (if keyframes self = [] then (let (a, h') = alloc h (PList []) in (Inr a, h'))
      else
        (case filter (\<lambda>k. k \<le> frame) (dict_keys (keyframes self)) of
           [] \<Rightarrow> (let (a, h') = alloc h (PList []) in (Inr a, h'))
         | k # ks \<Rightarrow>
             (let nearest = fold max ks k
              in case map_of (keyframes self) nearest of
                   None \<Rightarrow> (Inl KeyError, h)
                 | Some a0 \<Rightarrow>
                     (case py_copy (cells h a0) of
                        Inl e \<Rightarrow> (Inl e, h)
                      | Inr v \<Rightarrow> (let (a, h') = alloc h v in (Inr a, h'))))))"

text \<open>
  The declared type of \<open>_keyframes\<close> is \<open>Dict[int, List[Zone]]\<close>: every stored value is a
  list object, allocated below \<open>top\<close>.
\<close>

definition stores_lists :: "KeyframeManager \<Rightarrow> heap \<Rightarrow> bool" where
  "stores_lists self h =
     list_all (\<lambda>(k, a). a < top h \<and> (case cells h a of PList zs \<Rightarrow> True | _ \<Rightarrow> False))
       (keyframes self)"

subsection \<open>The example timeline \<open>{0: [A], 10: [B]}\<close>\<close>

definition empty_heap :: heap where
  "empty_heap = \<lparr>cells = (\<lambda>_. PNone), top = 0\<rparr>"

definition zone_A :: pyval where
  "zone_A = PTuple [PInt 10, PInt 10, PInt 50, PInt 50]"

definition zone_B :: pyval where
  "zone_B = PTuple [PInt 100, PInt 20, PInt 200, PInt 80]"

definition example_manager :: KeyframeManager where
  "example_manager = \<lparr>keyframes = [(0, 0), (10, 1)]\<rparr>"

definition example_heap :: heap where
  "example_heap = \<lparr>cells = (\<lambda>_. PNone)(0 := PList [zone_A], 1 := PList [zone_B]), top = 2\<rparr>"

text \<open>What the timeline holds: every keyframe with the contents of its list object.\<close>

definition timeline_view :: "KeyframeManager \<Rightarrow> heap \<Rightarrow> (int \<times> pyval) list" where
  "timeline_view self h = map (\<lambda>(k, a). (k, cells h a)) (keyframes self)"

subsection \<open>\<open>str(k)\<close> of an integer and \<open>int(s)\<close> of a string\<close>

text \<open>
  \<open>str\<close> writes the decimal digits, after a minus sign for a negative number.  \<open>int\<close> strips
  white space (the ASCII characters Python counts as such), reads an optional sign and then
  decimal digits, where single underscores may separate digits; anything else raises
  \<open>ValueError\<close>.  Strings are ASCII here.
\<close>

definition digit_char :: "nat \<Rightarrow> char" where
  "digit_char n = char_of (48 + n)"

fun digits :: "nat \<Rightarrow> string" where
  "digits n = (if n < 10 then [digit_char n] else digits (n div 10) @ [digit_char (n mod 10)])"

declare digits.simps [simp del]

definition py_str :: "int \<Rightarrow> string" where
  "py_str k = (if k < 0 then CHR ''-'' # digits (nat (- k)) else digits (nat k))"

definition is_digit :: "char \<Rightarrow> bool" where
  "is_digit c = (48 \<le> (of_char c :: nat) \<and> (of_char c :: nat) \<le> 57)"

definition digit_val :: "char \<Rightarrow> nat" where
  "digit_val c = of_char c - 48"

definition is_space :: "char \<Rightarrow> bool" where
  "is_space c = ((of_char c :: nat) \<in> {9, 10, 11, 12, 13, 28, 29, 30, 31, 32})"

definition py_strip :: "string \<Rightarrow> string" where
  "py_strip s = rev (dropWhile is_space (rev (dropWhile is_space s)))"

fun parse_digits :: "nat \<Rightarrow> bool \<Rightarrow> string \<Rightarrow> nat option" where
  "parse_digits acc after_digit [] = (if after_digit then Some acc else None)"
| "parse_digits acc after_digit (c # cs) =
     (if is_digit c then parse_digits (10 * acc + digit_val c) True cs
      else if c = CHR ''_'' \<and> after_digit then parse_digits acc False cs
      else None)"

definition py_int :: "string \<Rightarrow> error + int" where
  "py_int s =
     (case py_strip s of
        [] \<Rightarrow> Inl ValueError
      | c # r \<Rightarrow>
          if c = CHR ''-'' then (case parse_digits 0 False r of None \<Rightarrow> Inl ValueError | Some n \<Rightarrow> Inr (- int n))
          else if c = CHR ''+'' then (case parse_digits 0 False r of None \<Rightarrow> Inl ValueError | Some n \<Rightarrow> Inr (int n))
          else (case parse_digits 0 False (c # r) of None \<Rightarrow> Inl ValueError | Some n \<Rightarrow> Inr (int n)))"

subsection \<open>JSON documents and the sidecar file\<close>

text \<open>
  \<open>json.dump\<close> and \<open>json.load\<close> belong to the standard library; they are modelled at the level
  of the document: \<open>json_dump\<close> is the document written for a value (a tuple and a list are
  both written as an array) and \<open>json_load\<close> is the value read from a document (an array is
  read as a list, and of two equal keys of an object the later one wins).
\<close>

datatype json =
    JNull
  | JBool bool
  | JNum int
  | JStr string
  | JArr "json list"
  | JObj "(string \<times> json) list"

primrec json_dump :: "pyval \<Rightarrow> json" where
  "json_dump PNone = JNull"
| "json_dump (PBool b) = JBool b"
| "json_dump (PInt i) = JNum i"
| "json_dump (PStr s) = JStr s"
| "json_dump (PList xs) = JArr (map json_dump xs)"
| "json_dump (PTuple xs) = JArr (map json_dump xs)"
| "json_dump (PDict d) = JObj (map (map_prod id json_dump) d)"

primrec json_load :: "json \<Rightarrow> pyval" where
  "json_load JNull = PNone"
| "json_load (JBool b) = PBool b"
| "json_load (JNum i) = PInt i"
| "json_load (JStr s) = PStr s"
| "json_load (JArr xs) = PList (map json_load xs)"
| "json_load (JObj kvs) = PDict (dict_of_items (map (map_prod id json_load) kvs))"

text \<open>
  What is at a sidecar path: a JSON document, text that \<open>json.load\<close> rejects with
  \<open>JSONDecodeError\<close>, or something that exists and cannot be opened or read (\<open>IOError\<close>).
\<close>

datatype sidecar = Document json | Malformed | Unreadable

type_synonym sidecars = "string \<Rightarrow> sidecar option"

definition read_json :: "sidecar \<Rightarrow> error + pyval" where
  "read_json f = (case f of
      Document j \<Rightarrow> Inr (json_load j)
    | Malformed \<Rightarrow> Inl JSONDecodeError
    | Unreadable \<Rightarrow> Inl IOError)"

subsection \<open>\<open>to_dict\<close>, \<open>from_dict\<close>, \<open>save_to_file\<close>, \<open>load_from_file\<close>\<close>

text \<open>\<open>{str(k): v for k, v in self._keyframes.items()}\<close>: the values are the same list objects.\<close>

definition to_dict :: "KeyframeManager \<Rightarrow> (string, addr) dict" where
  "to_dict self = dict_of_items (map (\<lambda>(k, a). (py_str k, a)) (keyframes self))"

text \<open>
  \<open>{int(k): v for k, v in data.items()}\<close>, item by item: the first key that \<open>int\<close> rejects
  raises and no dict is built.
\<close>

fun int_keys :: "(string \<times> 'v) list \<Rightarrow> (int, 'v) dict \<Rightarrow> error + (int, 'v) dict" where
  "int_keys [] d = Inr d"
| "int_keys ((k, v) # kvs) d =
     (case py_int k of Inl e \<Rightarrow> Inl e | Inr i \<Rightarrow> int_keys kvs (dict_set d i v))"

text \<open>The loaded values become objects of the store, referenced from the new dict.\<close>

fun store_values :: "(int, pyval) dict \<Rightarrow> heap \<Rightarrow> (int, addr) dict \<times> heap" where
  "store_values [] h = ([], h)"
| "store_values ((k, v) # kvs) h =
     (let (a, h1) = alloc h v; (d, h2) = store_values kvs h1 in ((k, a) # d, h2))"

text \<open>
  \<open>from_dict\<close>: \<open>data.items()\<close> exists for a dict only; the assignment to \<open>_keyframes\<close> happens
  after the whole comprehension has been evaluated.
\<close>

definition from_dict ::
  "KeyframeManager \<Rightarrow> heap \<Rightarrow> pyval \<Rightarrow> (error + unit) \<times> KeyframeManager \<times> heap" where
  "from_dict self h data =
     (case data of
        PDict items \<Rightarrow>
          (case int_keys items [] of
             Inl e \<Rightarrow> (Inl e, self, h)
           | Inr d \<Rightarrow> (let (d', h') = store_values d h in (Inr (), self\<lparr>keyframes := d'\<rparr>, h')))
      | _ \<Rightarrow> (Inl AttributeError, self, h))"

definition save_to_file ::
  "KeyframeManager \<Rightarrow> heap \<Rightarrow> sidecars \<Rightarrow> string \<Rightarrow> string \<times> sidecars" where
  "save_to_file self h sc video_path =
     (let save_path = video_path @ ''.zones.json'';
          doc = json_dump (PDict (map (\<lambda>(k, a). (k, cells h a)) (to_dict self)))
      in (save_path, sc(save_path \<mapsto> Document doc)))"

text \<open>
  \<open>load_from_file\<close>: only \<open>json.JSONDecodeError\<close> and \<open>IOError\<close> are caught; any other
  exception of \<open>json.load\<close> or \<open>from_dict\<close> leaves the function.
\<close>

definition load_from_file ::
  "KeyframeManager \<Rightarrow> heap \<Rightarrow> sidecars \<Rightarrow> string \<Rightarrow> (error + bool) \<times> KeyframeManager \<times> heap" where
  "load_from_file self h sc video_path =
     (let zones_path = video_path @ ''.zones.json''
      in case sc zones_path of
           None \<Rightarrow> (Inr False, self, h)
         | Some f \<Rightarrow>
             (let (r, self', h') =
                    (case read_json f of
                       Inl e \<Rightarrow> (Inl e, self, h)
                     | Inr data \<Rightarrow> from_dict self h data)
              in case r of
                   Inr u \<Rightarrow> (Inr True, self', h')
                 | Inl e \<Rightarrow>
                     if e = JSONDecodeError \<or> e = IOError then (Inr False, self', h')
                     else (Inl e, self', h')))"

subsection \<open>Zones as rectangles\<close>

text \<open>
  A zone is a sequence of four integers \<open>(x1, y1, x2, y2)\<close>: a tuple when it was drawn, a list
  when it was read from a sidecar file.
\<close>

type_synonym zone = "int \<times> int \<times> int \<times> int"

fun the_int :: "pyval \<Rightarrow> int option" where
  "the_int (PInt i) = Some i"
| "the_int _ = None"

definition four_ints :: "pyval list \<Rightarrow> zone option" where
  "four_ints xs =
     (case xs of
        [a, b, c, d] \<Rightarrow>
          (case (the_int a, the_int b, the_int c, the_int d) of
             (Some x1, Some y1, Some x2, Some y2) \<Rightarrow> Some (x1, y1, x2, y2)
           | _ \<Rightarrow> None)
      | _ \<Rightarrow> None)"

fun zone_coords :: "pyval \<Rightarrow> zone option" where
  "zone_coords (PTuple xs) = four_ints xs"
| "zone_coords (PList xs) = four_ints xs"
| "zone_coords _ = None"

definition zones_of :: "pyval \<Rightarrow> zone list option" where
  "zones_of v =
     (case v of
        PList zs \<Rightarrow>
          if list_all (\<lambda>z. zone_coords z \<noteq> None) zs
          then Some (map (\<lambda>z. case zone_coords z of Some r \<Rightarrow> r | None \<Rightarrow> (0, 0, 0, 0)) zs)
          else None
      | _ \<Rightarrow> None)"

definition valid_timeline :: "KeyframeManager \<Rightarrow> heap \<Rightarrow> bool" where
  "valid_timeline self h =
     (distinct (dict_keys (keyframes self))
      \<and> list_all (\<lambda>(k, a). a < top h \<and> zones_of (cells h a) \<noteq> None) (keyframes self))"

definition zones_view :: "KeyframeManager \<Rightarrow> heap \<Rightarrow> (int \<times> zone list option) list" where
  "zones_view self h = map (\<lambda>(k, a). (k, zones_of (cells h a))) (keyframes self)"

fun as_list :: "pyval \<Rightarrow> pyval" where
  "as_list (PTuple xs) = PList xs"
| "as_list v = v"

fun with_list_zones :: "pyval \<Rightarrow> pyval" where
  "with_list_zones (PList zs) = PList (map as_list zs)"
| "with_list_zones v = v"

section \<open>Mask synthesis (propainter/processor.py)\<close>

text \<open>
  A mask is a \<open>uint8\<close> raster, a list of rows; \<open>np.zeros((height, width))\<close> raises
  \<open>ValueError\<close> for a negative dimension.
\<close>

type_synonym mask = "8 word list list"

definition np_zeros :: "int \<Rightarrow> int \<Rightarrow> error + mask" where
  "np_zeros height width =
     (if height < 0 \<or> width < 0 then Inl ValueError
      else Inr (replicate (nat height) (replicate (nat width) 0)))"

text \<open>\<open>np.any(mask > 0)\<close>.\<close>

definition np_any_positive :: "mask \<Rightarrow> bool" where
  "np_any_positive m = list_ex (list_ex (\<lambda>v. 0 < v)) m"

text \<open>
  A slice bound \<open>i\<close> on an axis of length \<open>n\<close>: a negative bound counts from the end, and
  bounds outside the axis are clipped.  \<open>mask[y1:y2, x1:x2] = v\<close> stores \<open>v\<close> at the rows and
  columns inside the two slices.
\<close>

definition slice_index :: "nat \<Rightarrow> int \<Rightarrow> nat" where
  "slice_index n i = nat (if i < 0 then max 0 (i + int n) else min i (int n))"

definition fill_slice :: "mask \<Rightarrow> int \<Rightarrow> int \<Rightarrow> int \<Rightarrow> int \<Rightarrow> 8 word \<Rightarrow> mask" where
  "fill_slice m y1 y2 x1 x2 v =
     map (\<lambda>(i, row).
            if slice_index (length m) y1 \<le> i \<and> i < slice_index (length m) y2
            then map (\<lambda>(j, p).
                        if slice_index (length row) x1 \<le> j \<and> j < slice_index (length row) x2
                        then v else p)
                   (enumerate 0 row)
            else row)
       (enumerate 0 m)"

text \<open>
  \<open>cv2.dilate\<close> with a square kernel of ones of radius \<open>r\<close> (side \<open>2 r + 1\<close>), the anchor at
  its centre and the default border, which contributes nothing to a maximum: every pixel becomes
  the maximum over the part of its neighbourhood inside the raster; \<open>iterations\<close> repeats it.
\<close>

definition window :: "nat \<Rightarrow> mask \<Rightarrow> nat \<Rightarrow> nat \<Rightarrow> 8 word list" where
  "window r m y x =
     concat (map (\<lambda>row. take (x + r + 1 - (x - r)) (drop (x - r) row))
              (take (y + r + 1 - (y - r)) (drop (y - r) m)))"

definition dilate_once :: "nat \<Rightarrow> mask \<Rightarrow> mask" where
  "dilate_once r m =
     map (\<lambda>(y, row). map (\<lambda>(x, p). fold max (window r m y x) 0) (enumerate 0 row))
       (enumerate 0 m)"

definition cv2_dilate :: "nat \<Rightarrow> nat \<Rightarrow> mask \<Rightarrow> mask" where
  "cv2_dilate r iterations m = (dilate_once r ^^ iterations) m"

text \<open>The body of the loop over the zones: pad by 8, clamp to the frame, fill with 255.\<close>

definition paint_zone :: "int \<Rightarrow> int \<Rightarrow> mask \<Rightarrow> zone \<Rightarrow> mask" where
  "paint_zone width height m z =
     (case z of (x1, y1, x2, y2) \<Rightarrow>
        (let pad = 8;
             x1 = max 0 (x1 - pad);
             y1 = max 0 (y1 - pad);
             x2 = min width (x2 + pad);
             y2 = min height (y2 + pad)
         in fill_slice m y1 y2 x1 x2 255))"

text \<open>
  \<open>create_mask_from_zones\<close>; the kernel \<open>np.ones((5, 5))\<close> has radius 2.  The parameter
  \<open>feather\<close> is not used by the source.
\<close>

definition create_mask_from_zones :: "int \<Rightarrow> int \<Rightarrow> zone list \<Rightarrow> error + mask" where
  "create_mask_from_zones width height zones =
     (case np_zeros height width of
        Inl e \<Rightarrow> Inl e
      | Inr zeros \<Rightarrow> Inr (cv2_dilate 2 2 (foldl (paint_zone width height) zeros zones)))"

text \<open>The Zone invariant of the data model: \<open>x1 < x2\<close>, \<open>y1 < y2\<close>, inside the frame.\<close>

definition zone_ok :: "int \<Rightarrow> int \<Rightarrow> zone \<Rightarrow> bool" where
  "zone_ok width height z =
     (case z of (x1, y1, x2, y2) \<Rightarrow>
        0 \<le> x1 \<and> x1 < x2 \<and> x2 \<le> width \<and> 0 \<le> y1 \<and> y1 < y2 \<and> y2 \<le> height)"

definition in_padded :: "int \<Rightarrow> int \<Rightarrow> zone \<Rightarrow> nat \<Rightarrow> nat \<Rightarrow> bool" where
  "in_padded width height z x y =
     (case z of (x1, y1, x2, y2) \<Rightarrow>
        max 0 (x1 - 8) \<le> int x \<and> int x < min width (x2 + 8)
        \<and> max 0 (y1 - 8) \<le> int y \<and> int y < min height (y2 + 8))"

text \<open>A raster of \<open>h\<close> rows of \<open>w\<close> pixels.\<close>

definition raster :: "nat \<Rightarrow> nat \<Rightarrow> mask \<Rightarrow> bool" where
  "raster h w m = (length m = h \<and> list_all (\<lambda>row. length row = w) m)"

section \<open>The inpainter (propainter/processor.py, class LamaInpainter)\<close>

text \<open>
  A frame is a raster of three-channel \<open>uint8\<close> pixels.  \<open>cv2.cvtColor\<close> with
  \<open>COLOR_BGR2RGB\<close> and with \<open>COLOR_RGB2BGR\<close> exchanges the first and the third channel.
\<close>

type_synonym pixel = "8 word \<times> 8 word \<times> 8 word"
type_synonym frame = "pixel list list"

definition cvt_color :: "frame \<Rightarrow> frame" where
  "cvt_color f = map (map (\<lambda>(c0, c1, c2). (c2, c1, c0))) f"

text \<open>\<open>a.shape[:2]\<close>: rows and columns.\<close>

definition shape2 :: "'a list list \<Rightarrow> nat \<times> nat" where
  "shape2 a = (length a, case a of [] \<Rightarrow> 0 | row # _ \<Rightarrow> length row)"

text \<open>
  What lies outside the repository and is used by the processor.  \<open>simple_lama\<close> is the
  model object \<open>SimpleLama()\<close>, a function from an image and a mask to an image, or \<open>None\<close>
  when importing or constructing it raises; \<open>cv2_resize result w h\<close> is \<open>cv2.resize\<close>.
  The remaining fields describe the search for the ffmpeg executable and how its run ends.
\<close>

datatype ffmpeg_outcome = Muxed | Failed bool

record externals =
  simple_lama :: "(frame \<Rightarrow> mask \<Rightarrow> frame) option"
  cv2_resize :: "frame \<Rightarrow> nat \<Rightarrow> nat \<Rightarrow> frame"
  imageio_ffmpeg :: "(error + string) option"
  which_ffmpeg :: "string option"
  path_exists :: "string \<Rightarrow> bool"
  ffmpeg_run :: ffmpeg_outcome

text \<open>
  \<open>LamaInpainter()\<close>: \<open>_load_model\<close> catches every exception of the import and of the
  constructor, prints a message and leaves \<open>model = None\<close>.
\<close>

record LamaInpainter =
  model :: "(frame \<Rightarrow> mask \<Rightarrow> frame) option"

definition new_LamaInpainter :: "externals \<Rightarrow> LamaInpainter" where
  "new_LamaInpainter ext = \<lparr>model = simple_lama ext\<rparr>"

text \<open>
  The invocations of the model are recorded in a log of the (frame, mask) pairs it was called
  with, threaded through the functions.
\<close>

type_synonym call_log = "(frame \<times> mask) list"

definition inpaint_frame ::
  "externals \<Rightarrow> LamaInpainter \<Rightarrow> frame \<Rightarrow> mask \<Rightarrow> call_log \<Rightarrow> frame \<times> call_log" where
  "inpaint_frame ext self frame msk log =
     (if \<not> np_any_positive msk \<or> model self = None then (frame, log)
      else
        (case model self of
           None \<Rightarrow> (frame, log)
         | Some lama \<Rightarrow>
             (let result = lama frame msk;
                  result = (if shape2 result \<noteq> shape2 frame
                            then cv2_resize ext result (snd (shape2 frame)) (fst (shape2 frame))
                            else result)
              in (result, log @ [(frame, msk)]))))"

text \<open>
  A progress callback: called with (current, total), it returns (\<open>None\<close>) or raises.
  \<open>LamaInpainter.process_video\<close> is the loop over \<open>enumerate(zip(frames, masks))\<close>.
\<close>

type_synonym callback = "int \<Rightarrow> int \<Rightarrow> error option"

fun batch_loop ::
  "externals \<Rightarrow> LamaInpainter \<Rightarrow> callback option \<Rightarrow> int \<Rightarrow> int \<Rightarrow> (frame \<times> mask) list
     \<Rightarrow> frame list \<Rightarrow> call_log \<Rightarrow> (error + frame list) \<times> call_log" where
  "batch_loop ext self cb n_frames i [] results log = (Inr results, log)"
| "batch_loop ext self cb n_frames i ((frame, msk) # rest) results log =
     (let (result, log1) =
            (if np_any_positive msk then inpaint_frame ext self frame msk log else (frame, log));
          results1 = results @ [result]
      in case cb of
           None \<Rightarrow> batch_loop ext self cb n_frames (i + 1) rest results1 log1
         | Some progress_callback \<Rightarrow>
             (case progress_callback (i + 1) n_frames of
                Some e \<Rightarrow> (Inl e, log1)
              | None \<Rightarrow> batch_loop ext self cb n_frames (i + 1) rest results1 log1))"

definition inpainter_process_video ::
  "externals \<Rightarrow> LamaInpainter \<Rightarrow> frame list \<Rightarrow> mask list \<Rightarrow> callback option \<Rightarrow> call_log
     \<Rightarrow> (error + frame list) \<times> call_log" where
  "inpainter_process_video ext self frames masks cb log =
     batch_loop ext self cb (int (length frames)) 0 (zip frames masks) [] log"

text \<open>What the batch call returns for one frame, and the model invocations it makes.\<close>

definition inpainted :: "externals \<Rightarrow> LamaInpainter \<Rightarrow> frame \<times> mask \<Rightarrow> frame" where
  "inpainted ext self fm = fst (inpaint_frame ext self (fst fm) (snd fm) [])"

definition invokes_model :: "LamaInpainter \<Rightarrow> frame \<times> mask \<Rightarrow> bool" where
  "invokes_model self fm = (np_any_positive (snd fm) \<and> model self \<noteq> None)"

subsection \<open>An example frame and example externals\<close>

definition example_frame :: frame where
  "example_frame = [[(1, 2, 3)]]"

definition example_externals :: externals where
  "example_externals =
     \<lparr>simple_lama = Some (\<lambda>frame msk. map (map (\<lambda>p. (0, 0, 0))) frame),
      cv2_resize = (\<lambda>result w h. result),
      imageio_ffmpeg = None,
      which_ffmpeg = None,
      path_exists = (\<lambda>p. False),
      ffmpeg_run = Muxed\<rparr>"

section \<open>The pipeline (propainter/processor.py) and the worker (src/app.py)\<close>

text \<open>
  The module-level \<open>get_zones_at_frame\<close>.  Its argument is the dict that \<open>to_dict()\<close>
  produced: the keys are strings, converted by \<open>int\<close>, and the values are lists of zones.
  Zones are rectangles here, so \<open>tuple(z)\<close> changes nothing.
\<close>

definition processor_get_zones_at_frame :: "(string, zone list) dict \<Rightarrow> int \<Rightarrow> error + zone list" where
  "processor_get_zones_at_frame kfs frame_num =
     (if kfs = [] then Inr []
      else
        (case int_keys kfs [] of
           Inl e \<Rightarrow> Inl e
         | Inr kf_dict \<Rightarrow>
             (case filter (\<lambda>k. k \<le> frame_num) (dict_keys kf_dict) of
                [] \<Rightarrow> Inr []
              | k # ks \<Rightarrow>
                  (case map_of kf_dict (fold max ks k) of
                     None \<Rightarrow> Inl KeyError
                   | Some zs \<Rightarrow> Inr zs))))"

text \<open>
  Files: a source video with the frames its decoder delivers and its metadata, the raw
  intermediate with the frames handed to the writer, the muxed result with the frames it was
  encoded from, or what a failed ffmpeg run left behind.  The frame rate is left out.
\<close>

record video =
  vframes :: "frame list"
  vwidth :: nat
  vheight :: nat
  vframe_count :: int

datatype vfile = SourceVideo video | RawAvi "frame list" | Mp4 "frame list" | PartialOutput

text \<open>
  The world of one job: the file system, whether the decoder (\<open>cap\<close>) and the writer (\<open>out\<close>)
  are open, and, as a record of what happened, the model invocations, the sizes of the batches
  given to the inpainter and the progress reports delivered.
\<close>

record world =
  fs :: "string \<Rightarrow> vfile option"
  cap_open :: bool
  out_open :: bool
  model_calls :: call_log
  batch_sizes :: "nat list"
  progress_seen :: "(int \<times> int) list"

text \<open>The local variables of \<open>process_video\<close> that change in its loop.\<close>

record pstate =
  frame_idx :: int
  frames_buffer :: "frame list"
  masks_buffer :: "mask list"
  written :: "frame list"
  calls :: call_log
  batches :: "nat list"
  reported :: "(int \<times> int) list"

text \<open>The mask of a frame: the zones at its index, and a zero raster when there are none.\<close>

definition frame_mask :: "(string, zone list) dict \<Rightarrow> nat \<Rightarrow> nat \<Rightarrow> int \<Rightarrow> error + mask" where
  "frame_mask kfs width height idx =
     (case processor_get_zones_at_frame kfs idx of
        Inl e \<Rightarrow> Inl e
      | Inr zones \<Rightarrow>
          if zones \<noteq> [] then create_mask_from_zones (int width) (int height) zones
          else np_zeros (int height) (int width))"

text \<open>
  One batch: \<open>inpainter.process_video(frames_buffer, masks_buffer)\<close>, then every returned
  frame is converted back and written.
\<close>

definition flush :: "externals \<Rightarrow> LamaInpainter \<Rightarrow> pstate \<Rightarrow> error option \<times> pstate" where
  "flush ext inpainter s =
     (case inpainter_process_video ext inpainter (frames_buffer s) (masks_buffer s) None (calls s) of
        (Inl e, log) \<Rightarrow> (Some e, s\<lparr>calls := log\<rparr>)
      | (Inr processed, log) \<Rightarrow>
          (None, s\<lparr>written := written s @ map cvt_color processed,
                   calls := log,
                   batches := batches s @ [length (frames_buffer s)]\<rparr>))"

text \<open>The body of the \<open>while\<close> loop for one frame that \<open>cap.read()\<close> delivered.\<close>

definition frame_step ::
  "externals \<Rightarrow> LamaInpainter \<Rightarrow> (string, zone list) dict \<Rightarrow> nat \<Rightarrow> nat \<Rightarrow> int
     \<Rightarrow> callback option \<Rightarrow> int \<Rightarrow> frame \<Rightarrow> pstate \<Rightarrow> error option \<times> pstate" where
  "frame_step ext inpainter kfs width height total_frames cb chunk_size frame s =
     (case frame_mask kfs width height (frame_idx s) of
        Inl e \<Rightarrow> (Some e, s)
      | Inr msk \<Rightarrow>
          (let s1 = s\<lparr>frames_buffer := frames_buffer s @ [cvt_color frame],
                       masks_buffer := masks_buffer s @ [msk]\<rparr>;
               (err, s2) =
                 (if chunk_size \<le> int (length (frames_buffer s1))
                  then (case flush ext inpainter s1 of
                          (Some e, s') \<Rightarrow> (Some e, s')
                        | (None, s') \<Rightarrow> (None, s'\<lparr>frames_buffer := [], masks_buffer := []\<rparr>))
                  else (None, s1))
           in case err of
                Some e \<Rightarrow> (Some e, s2)
              | None \<Rightarrow>
                  (let s3 = s2\<lparr>frame_idx := frame_idx s2 + 1\<rparr>
                   in case cb of
                        None \<Rightarrow> (None, s3)
                      | Some progress_callback \<Rightarrow>
                          (case progress_callback (frame_idx s3) total_frames of
                             Some e \<Rightarrow> (Some e, s3)
                           | None \<Rightarrow>
                               (None, s3\<lparr>reported := reported s3 @ [(frame_idx s3, total_frames)]\<rparr>)))))"

fun frame_loop ::
  "externals \<Rightarrow> LamaInpainter \<Rightarrow> (string, zone list) dict \<Rightarrow> nat \<Rightarrow> nat \<Rightarrow> int
     \<Rightarrow> callback option \<Rightarrow> int \<Rightarrow> frame list \<Rightarrow> pstate \<Rightarrow> error option \<times> pstate" where
  "frame_loop ext inpainter kfs width height total_frames cb chunk_size [] s = (None, s)"
| "frame_loop ext inpainter kfs width height total_frames cb chunk_size (frame # rest) s =
     (case frame_step ext inpainter kfs width height total_frames cb chunk_size frame s of
        (Some e, s') \<Rightarrow> (Some e, s')
      | (None, s') \<Rightarrow>
          frame_loop ext inpainter kfs width height total_frames cb chunk_size rest s')"

text \<open>
  \<open>get_ffmpeg_path\<close>: the executable of \<open>imageio_ffmpeg\<close> when that module imports (only
  \<open>ImportError\<close> is caught there; \<open>imageio_ffmpeg ext\<close> is \<open>None\<close> when the import fails and
  otherwise what \<open>get_ffmpeg_exe()\<close> returns or raises), else
  \<open>shutil.which\<close>, else the first existing one of two fixed paths, else \<open>FileNotFoundError\<close>.
  \<open>sep\<close> is the backslash of the Windows paths.
\<close>

definition sep :: string where
  "sep = [CHR 0x5C]"

definition common_paths :: "string list" where
  "common_paths =
     [''C:'' @ sep @ ''ffmpeg'' @ sep @ ''bin'' @ sep @ ''ffmpeg.exe'',
      ''C:'' @ sep @ ''Program Files'' @ sep @ ''ffmpeg'' @ sep @ ''bin'' @ sep @ ''ffmpeg.exe'']"

definition search_ffmpeg :: "externals \<Rightarrow> error + string" where
  "search_ffmpeg ext =
     (case which_ffmpeg ext of
        Some p \<Rightarrow>
          if p \<noteq> [] then Inr p
          else (case filter (path_exists ext) common_paths of
                  p # _ \<Rightarrow> Inr p | [] \<Rightarrow> Inl FileNotFoundError)
      | None \<Rightarrow>
          (case filter (path_exists ext) common_paths of
             p # _ \<Rightarrow> Inr p | [] \<Rightarrow> Inl FileNotFoundError))"

definition get_ffmpeg_path :: "externals \<Rightarrow> error + string" where
  "get_ffmpeg_path ext =
     (case imageio_ffmpeg ext of
        Some (Inr exe) \<Rightarrow> Inr exe
      | Some (Inl e) \<Rightarrow> if e = ImportError then search_ffmpeg ext else Inl e
      | None \<Rightarrow> search_ffmpeg ext)"

text \<open>
  \<open>convert_to_mp4\<close>: \<open>subprocess.run(cmd, check=True)\<close> raises \<open>CalledProcessError\<close> when
  ffmpeg fails, which it does in particular when its first input is no video; a failed run may
  leave a partial file at the output path.
\<close>

definition convert_to_mp4 ::
  "externals \<Rightarrow> (string \<Rightarrow> vfile option) \<Rightarrow> string \<Rightarrow> string \<Rightarrow> string
     \<Rightarrow> (error + unit) \<times> (string \<Rightarrow> vfile option)" where
  "convert_to_mp4 ext files input_path output_path original_video =
     (case get_ffmpeg_path ext of
        Inl e \<Rightarrow> (Inl e, files)
      | Inr ffmpeg \<Rightarrow>
          (case ffmpeg_run ext of
             Failed partial \<Rightarrow>
               (Inl CalledProcessError,
                if partial then files(output_path \<mapsto> PartialOutput) else files)
           | Muxed \<Rightarrow>
               (case files input_path of
                  Some (RawAvi frames) \<Rightarrow> (Inr (), files(output_path \<mapsto> Mp4 frames))
                | _ \<Rightarrow> (Inl CalledProcessError, files))))"

definition os_remove ::
  "(string \<Rightarrow> vfile option) \<Rightarrow> string \<Rightarrow> (error + unit) \<times> (string \<Rightarrow> vfile option)" where
  "os_remove files p =
     (case files p of None \<Rightarrow> (Inl FileNotFoundError, files) | Some f \<Rightarrow> (Inr (), files(p := None)))"

definition shutil_move ::
  "(string \<Rightarrow> vfile option) \<Rightarrow> string \<Rightarrow> string \<Rightarrow> (error + unit) \<times> (string \<Rightarrow> vfile option)" where
  "shutil_move files src dst =
     (case files src of
        None \<Rightarrow> (Inl FileNotFoundError, files)
      | Some f \<Rightarrow> (Inr (), if src = dst then files else (files(dst \<mapsto> f))(src := None)))"

text \<open>
  The end of \<open>process_video\<close>: \<open>try: convert_to_mp4(...); os.remove(temp_output)\<close>,
  \<open>except Exception: shutil.move(temp_output, output_path)\<close>.
\<close>

definition reassemble :: "externals \<Rightarrow> world \<Rightarrow> string \<Rightarrow> string \<Rightarrow> string \<Rightarrow> (error + unit) \<times> world" where
  "reassemble ext w temp_output output_path input_path =
     (let (r, files) =
            (case convert_to_mp4 ext (fs w) temp_output output_path input_path of
               (Inl e, files) \<Rightarrow> (Inl e, files)
             | (Inr u, files) \<Rightarrow> os_remove files temp_output)
      in case r of
           Inr u \<Rightarrow> (Inr (), w\<lparr>fs := files\<rparr>)
         | Inl e \<Rightarrow>
             (case shutil_move files temp_output output_path of
                (r', files') \<Rightarrow> (r', w\<lparr>fs := files'\<rparr>)))"

text \<open>
  \<open>process_video\<close>.  The source either opens as a video or \<open>ValueError\<close> is raised.  Creating
  the writer creates the intermediate file; its contents are the frames written so far.  An
  exception inside the loop or the last batch leaves the function at once: the two
  \<open>release()\<close> calls and the reassembly are not reached.
\<close>

definition leave ::
  "world \<Rightarrow> string \<Rightarrow> pstate \<Rightarrow> bool \<Rightarrow> world" where
  "leave w temp_output s handles_open =
     w\<lparr>fs := (fs w)(temp_output \<mapsto> RawAvi (written s)),
       cap_open := handles_open, out_open := handles_open,
       model_calls := calls s, batch_sizes := batches s, progress_seen := reported s\<rparr>"

definition process_video ::
  "externals \<Rightarrow> world \<Rightarrow> string \<Rightarrow> string \<Rightarrow> (string, zone list) dict \<Rightarrow> callback option \<Rightarrow> int
     \<Rightarrow> (error + unit) \<times> world" where
  "process_video ext w input_path output_path kfs cb chunk_size =
     (case fs w input_path of
        Some (SourceVideo v) \<Rightarrow>
          (let temp_output = output_path @ ''.temp.avi'';
               inpainter = new_LamaInpainter ext;
               s0 = \<lparr>frame_idx = 0, frames_buffer = [], masks_buffer = [], written = [],
                     calls = [], batches = [], reported = []\<rparr>
           in case frame_loop ext inpainter kfs (vwidth v) (vheight v) (vframe_count v)
                     cb chunk_size (vframes v) s0 of
                (Some e, s) \<Rightarrow> (Inl e, leave w temp_output s True)
              | (None, s) \<Rightarrow>
                  (case (if frames_buffer s \<noteq> [] then flush ext inpainter s else (None, s)) of
                     (Some e, s') \<Rightarrow> (Inl e, leave w temp_output s' True)
                   | (None, s') \<Rightarrow>
                       reassemble ext (leave w temp_output s' False) temp_output output_path input_path))
      | _ \<Rightarrow> (Inl ValueError, w))"

text \<open>
  \<open>ProcessingWorker.run\<close>.  The callback raises \<open>InterruptedError\<close> when the cancellation
  flag is set and emits the progress signal otherwise; \<open>cancel_seen current\<close> is the value of
  the flag, which another thread sets, when the callback runs for the count \<open>current\<close>.  The
  default chunk size 50 is used.
\<close>

datatype report = ModuleNotFound | Cancelled | Message error

datatype signal = ProgressSignal int int | FinishedSignal string | ErrorSignal report

record ProcessingWorker =
  video_path :: string
  output_path :: string
  worker_keyframes :: "(string, zone list) dict"

definition progress_callback :: "(int \<Rightarrow> bool) \<Rightarrow> callback" where
  "progress_callback cancel_seen current total_frames =
     (if cancel_seen current then Some InterruptedError else None)"

definition run ::
  "externals \<Rightarrow> bool \<Rightarrow> (int \<Rightarrow> bool) \<Rightarrow> ProcessingWorker \<Rightarrow> world \<Rightarrow> signal list \<times> world" where
  "run ext propainter_imports cancel_seen self w =
     (if \<not> propainter_imports then ([ErrorSignal ModuleNotFound], w)
      else
        (case process_video ext w (video_path self) (output_path self) (worker_keyframes self)
                (Some (progress_callback cancel_seen)) 50 of
           (r, w') \<Rightarrow>
             (map (\<lambda>(c, t). ProgressSignal c t) (progress_seen w')
                @ [case r of
                     Inr u \<Rightarrow> FinishedSignal (output_path self)
                   | Inl e \<Rightarrow>
                       if e = ImportError then ErrorSignal ModuleNotFound
                       else if e = InterruptedError then ErrorSignal Cancelled
                       else ErrorSignal (Message e)],
              w')))"

subsection \<open>An example job\<close>

definition example_video :: video where
  "example_video = \<lparr>vframes = [example_frame, example_frame, example_frame],
                     vwidth = 1, vheight = 1, vframe_count = 3\<rparr>"

definition example_world :: world where
  "example_world =
     \<lparr>fs = [''in.mp4'' \<mapsto> SourceVideo example_video], cap_open = False, out_open = False,
      model_calls = [], batch_sizes = [], progress_seen = []\<rparr>"

definition example_worker :: ProcessingWorker where
  "example_worker =
     \<lparr>video_path = ''in.mp4'', output_path = ''out.mp4'', worker_keyframes = [(''1'', [(0, 0, 1, 1)])]\<rparr>"

subsection \<open>Notions for stating the properties of the pipeline\<close>

text \<open>
  The keys of the keyframes dict are numbers when \<open>int\<close> accepts every one of them; a callback
  is quiet when it never raises.  \<open>pairs_from\<close> lists the (frame, mask) pairs the loop puts into
  its buffers for consecutive frame indices, \<open>reports_from\<close> the progress reports it makes,
  \<open>settled\<close> and \<open>called\<close> are the frames written and the model invocations made once the
  current buffer is flushed, and \<open>chunks n c\<close> are the sizes of the batches that \<open>n\<close> frames give
  with chunk size \<open>c\<close>.  The reassembly succeeds (\<open>mux_ok\<close>) when ffmpeg is found and its run
  succeeds.
\<close>

definition keys_are_numbers :: "(string, 'v) dict \<Rightarrow> bool" where
  "keys_are_numbers kfs = (case int_keys kfs [] of Inr d \<Rightarrow> True | Inl e \<Rightarrow> False)"

definition quiet :: "callback option \<Rightarrow> bool" where
  "quiet cb = (case cb of None \<Rightarrow> True | Some f \<Rightarrow> \<forall>c t. f c t = None)"

definition the_mask :: "(string, zone list) dict \<Rightarrow> nat \<Rightarrow> nat \<Rightarrow> int \<Rightarrow> mask" where
  "the_mask kfs width height idx =
     (case frame_mask kfs width height idx of Inr m \<Rightarrow> m | Inl e \<Rightarrow> [])"









section \<open>Properties of the zone timeline\<close>

lemma fold_max_is_Max: "fold max ks (k :: int) = Max (set (k # ks))"
  by (rule Max.set_eq_fold [symmetric])

lemma stores_listsD:
  assumes "stores_lists self h" and "map_of (keyframes self) k = Some a"
  shows "a < top h \<and> (\<exists>zs. cells h a = PList zs)"
proof -
  from assms(2) have "(k, a) \<in> set (keyframes self)"
    by (rule map_of_SomeD)
  with assms(1) have "a < top h" and "case cells h a of PList zs \<Rightarrow> True | _ \<Rightarrow> False"
    by (auto simp: stores_lists_def list_all_iff)
  then show ?thesis
    by (cases "cells h a") auto
qed

lemma get_zones_no_keyframe:
  assumes "\<forall>k \<in> set (dict_keys (keyframes self)). \<not> k \<le> f"
  shows "get_zones_at_frame self h f =
           (Inr (top h), h\<lparr>cells := (cells h)(top h := PList []), top := Suc (top h)\<rparr>)"
proof -
  from assms have "filter (\<lambda>k. k \<le> f) (dict_keys (keyframes self)) = []"
    by (simp add: filter_empty_conv)
  then show ?thesis
    by (simp add: get_zones_at_frame_def alloc_def)
qed

lemma get_zones_nearest:
  assumes lists: "stores_lists self h"
    and ex: "\<exists>k \<in> set (dict_keys (keyframes self)). k \<le> f"
  shows "\<exists>a0 zs. map_of (keyframes self) (Max {k \<in> set (dict_keys (keyframes self)). k \<le> f}) = Some a0
           \<and> cells h a0 = PList zs
           \<and> get_zones_at_frame self h f =
               (Inr (top h), h\<lparr>cells := (cells h)(top h := PList zs), top := Suc (top h)\<rparr>)"
proof -
  let ?keys = "dict_keys (keyframes self)"
  let ?valid = "filter (\<lambda>k. k \<le> f) ?keys"
  from ex have ne: "?valid \<noteq> []"
    by (simp add: filter_empty_conv)
  then obtain k ks where valid: "?valid = k # ks"
    by (cases ?valid) auto
  have set_valid: "set (k # ks) = {k \<in> set ?keys. k \<le> f}"
    using valid by (metis set_filter)
  let ?nearest = "Max {k \<in> set ?keys. k \<le> f}"
  have nearest: "fold max ks k = ?nearest"
    by (simp only: fold_max_is_Max set_valid)
  have "?nearest \<in> {k \<in> set ?keys. k \<le> f}"
    using ex by (intro Max_in) auto
  then have "?nearest \<in> fst ` set (keyframes self)"
    by (simp add: dict_keys_def)
  then obtain a0 where a0: "map_of (keyframes self) ?nearest = Some a0"
    by (metis domD dom_map_of_conv_image_fst)
  from stores_listsD [OF lists a0] obtain zs where zs: "cells h a0 = PList zs"
    by blast
  from ex have nonempty: "keyframes self \<noteq> []"
    by (auto simp: dict_keys_def)
  have "get_zones_at_frame self h f =
          (Inr (top h), h\<lparr>cells := (cells h)(top h := PList zs), top := Suc (top h)\<rparr>)"
    using nonempty valid nearest a0 zs
    by (simp add: get_zones_at_frame_def alloc_def)
  with a0 zs show ?thesis
    by blast
qed

text \<open>
  Claim C3.  For every frame index \<open>f\<close> and every keyframe mapping whose values are zone
  lists, \<open>get_zones_at_frame\<close> returns a list: the empty list when no keyframe index is at or
  before \<open>f\<close> (in particular for the empty timeline), and otherwise the zones stored under the
  greatest keyframe index \<open>k \<le> f\<close>, which exists as soon as some keyframe is at or before \<open>f\<close>.
\<close>

theorem get_zones_at_frame_greatest_keyframe:
  assumes "stores_lists self h"
  shows "\<exists>a h' zs. get_zones_at_frame self h f = (Inr a, h') \<and> cells h' a = PList zs
           \<and> ((\<forall>k \<in> set (dict_keys (keyframes self)). \<not> k \<le> f) \<longrightarrow> zs = [])
           \<and> (\<forall>k a0. map_of (keyframes self) k = Some a0 \<and> k \<le> f
                  \<and> (\<forall>k' \<in> set (dict_keys (keyframes self)). k' \<le> f \<longrightarrow> k' \<le> k)
                \<longrightarrow> cells h a0 = PList zs)
           \<and> ((\<exists>k \<in> set (dict_keys (keyframes self)). k \<le> f) \<longrightarrow>
                (\<exists>k \<in> set (dict_keys (keyframes self)). k \<le> f
                   \<and> (\<forall>k' \<in> set (dict_keys (keyframes self)). k' \<le> f \<longrightarrow> k' \<le> k)))"
proof (cases "\<exists>k \<in> set (dict_keys (keyframes self)). k \<le> f")
  case False
  then have none: "\<forall>k \<in> set (dict_keys (keyframes self)). \<not> k \<le> f"
    by blast
  have "map_of (keyframes self) k = Some a0 \<Longrightarrow> \<not> k \<le> f" for k a0
  proof -
    assume "map_of (keyframes self) k = Some a0"
    then have "k \<in> set (dict_keys (keyframes self))"
      by (metis dict_keys_def domI dom_map_of_conv_image_fst image_set)
    with none show ?thesis by blast
  qed
  with False show ?thesis
    unfolding get_zones_no_keyframe [OF none] by auto
next
  case True
  let ?S = "{k \<in> set (dict_keys (keyframes self)). k \<le> f}"
  from get_zones_nearest [OF assms True] obtain a0 zs where
    a0: "map_of (keyframes self) (Max ?S) = Some a0" and
    zs: "cells h a0 = PList zs" and
    res: "get_zones_at_frame self h f =
            (Inr (top h), h\<lparr>cells := (cells h)(top h := PList zs), top := Suc (top h)\<rparr>)"
    by blast
  have fin: "finite ?S" by simp
  from True have ne: "?S \<noteq> {}" by blast
  have max_in: "Max ?S \<in> ?S"
    using fin ne by (rule Max_in)
  have max_ge: "k' \<le> Max ?S" if "k' \<in> ?S" for k'
    using fin that by (rule Max_ge)
  have greatest: "cells h a1 = PList zs"
    if "map_of (keyframes self) k = Some a1" "k \<le> f"
       "\<forall>k' \<in> set (dict_keys (keyframes self)). k' \<le> f \<longrightarrow> k' \<le> k" for k a1
  proof -
    from that(1) have "k \<in> set (dict_keys (keyframes self))"
      by (metis dict_keys_def domI dom_map_of_conv_image_fst image_set)
    with that(2) have "k \<in> ?S" by simp
    then have "k \<le> Max ?S" by (rule max_ge)
    moreover from max_in that(3) have "Max ?S \<le> k" by simp
    ultimately have "k = Max ?S" by simp
    with a0 that(1) zs show ?thesis by simp
  qed
  have exists: "\<exists>k \<in> set (dict_keys (keyframes self)). k \<le> f
                  \<and> (\<forall>k' \<in> set (dict_keys (keyframes self)). k' \<le> f \<longrightarrow> k' \<le> k)"
    using max_in max_ge by (intro bexI [of _ "Max ?S"]) auto
  from True greatest exists show ?thesis
    unfolding res by auto
qed

lemma example_built_by_add_zone:
  "(case add_zone init_manager empty_heap 0 zone_A of
      (r, m, h) \<Rightarrow> add_zone m h 10 zone_B) = (Inr (), example_manager, example_heap)"
  by (simp add: add_zone_def init_manager_def empty_heap_def alloc_def list_append_def
      example_manager_def example_heap_def fun_upd_twist)

lemma example_stores_lists: "stores_lists example_manager example_heap"
  by (simp add: stores_lists_def example_manager_def example_heap_def)

text \<open>
  The theorem at the spec's example: with keyframes \<open>{0: [A], 10: [B]}\<close> the zones at
  frames 5, 15 and 0 are \<open>[A]\<close>, \<open>[B]\<close> and \<open>[A]\<close>, and no zone is active before frame 0.
\<close>

theorem get_zones_at_frame_greatest_keyframe_witness:
  "stores_lists example_manager example_heap
   \<and> (\<exists>a h'. get_zones_at_frame example_manager example_heap 5 = (Inr a, h') \<and> cells h' a = PList [zone_A])
   \<and> (\<exists>a h'. get_zones_at_frame example_manager example_heap 15 = (Inr a, h') \<and> cells h' a = PList [zone_B])
   \<and> (\<exists>a h'. get_zones_at_frame example_manager example_heap 0 = (Inr a, h') \<and> cells h' a = PList [zone_A])
   \<and> (\<exists>a h'. get_zones_at_frame example_manager example_heap (- 1) = (Inr a, h') \<and> cells h' a = PList [])"
proof -
  note ok = example_stores_lists
  have keys: "dict_keys (keyframes example_manager) = [0, 10]"
    by (simp add: dict_keys_def example_manager_def)
  have m0: "map_of (keyframes example_manager) 0 = Some 0"
    and m10: "map_of (keyframes example_manager) 10 = Some 1"
    by (simp_all add: example_manager_def)
  have c0: "cells example_heap 0 = PList [zone_A]" and c1: "cells example_heap 1 = PList [zone_B]"
    by (simp_all add: example_heap_def)
  have at5: "\<exists>a h'. get_zones_at_frame example_manager example_heap 5 = (Inr a, h')
               \<and> cells h' a = PList [zone_A]"
  proof -
    from get_zones_at_frame_greatest_keyframe [OF ok, of 5] obtain a h' zs where
      r: "get_zones_at_frame example_manager example_heap 5 = (Inr a, h')" "cells h' a = PList zs"
      and g: "\<forall>k a0. map_of (keyframes example_manager) k = Some a0 \<and> k \<le> 5
                \<and> (\<forall>k' \<in> set (dict_keys (keyframes example_manager)). k' \<le> 5 \<longrightarrow> k' \<le> k)
              \<longrightarrow> cells example_heap a0 = PList zs"
      by blast
    from g [rule_format, of 0 0] m0 c0 have "zs = [zone_A]"
      by (simp add: keys)
    with r show ?thesis by blast
  qed
  have at15: "\<exists>a h'. get_zones_at_frame example_manager example_heap 15 = (Inr a, h')
                \<and> cells h' a = PList [zone_B]"
  proof -
    from get_zones_at_frame_greatest_keyframe [OF ok, of 15] obtain a h' zs where
      r: "get_zones_at_frame example_manager example_heap 15 = (Inr a, h')" "cells h' a = PList zs"
      and g: "\<forall>k a0. map_of (keyframes example_manager) k = Some a0 \<and> k \<le> 15
                \<and> (\<forall>k' \<in> set (dict_keys (keyframes example_manager)). k' \<le> 15 \<longrightarrow> k' \<le> k)
              \<longrightarrow> cells example_heap a0 = PList zs"
      by blast
    from g [rule_format, of 10 1] m10 c1 have "zs = [zone_B]"
      by (simp add: keys)
    with r show ?thesis by blast
  qed
  have at0: "\<exists>a h'. get_zones_at_frame example_manager example_heap 0 = (Inr a, h')
               \<and> cells h' a = PList [zone_A]"
  proof -
    from get_zones_at_frame_greatest_keyframe [OF ok, of 0] obtain a h' zs where
      r: "get_zones_at_frame example_manager example_heap 0 = (Inr a, h')" "cells h' a = PList zs"
      and g: "\<forall>k a0. map_of (keyframes example_manager) k = Some a0 \<and> k \<le> 0
                \<and> (\<forall>k' \<in> set (dict_keys (keyframes example_manager)). k' \<le> 0 \<longrightarrow> k' \<le> k)
              \<longrightarrow> cells example_heap a0 = PList zs"
      by blast
    from g [rule_format, of 0 0] m0 c0 have "zs = [zone_A]"
      by (simp add: keys)
    with r show ?thesis by blast
  qed
  have before: "\<exists>a h'. get_zones_at_frame example_manager example_heap (- 1) = (Inr a, h')
                  \<and> cells h' a = PList []"
  proof -
    from get_zones_at_frame_greatest_keyframe [OF ok, of "- 1"] obtain a h' zs where
      r: "get_zones_at_frame example_manager example_heap (- 1) = (Inr a, h')" "cells h' a = PList zs"
      and e: "(\<forall>k \<in> set (dict_keys (keyframes example_manager)). \<not> k \<le> - 1) \<longrightarrow> zs = []"
      by blast
    from e have "zs = []"
      by (simp add: keys)
    with r show ?thesis by blast
  qed
  from ok at5 at15 at0 before show ?thesis by blast
qed

lemma timeline_view_cong:
  assumes "\<forall>(k, a) \<in> set (keyframes self). cells h2 a = cells h a"
  shows "timeline_view self h2 = timeline_view self h"
  using assms by (auto simp: timeline_view_def)

lemma stores_lists_addr:
  assumes "stores_lists self h" and "(k, a) \<in> set (keyframes self)"
  shows "a < top h"
  using assms by (auto simp: stores_lists_def list_all_iff)

lemma stores_lists_cong:
  assumes "stores_lists self h" and "top h \<le> top h2"
    and "\<forall>(k, a) \<in> set (keyframes self). cells h2 a = cells h a"
  shows "stores_lists self h2"
  using assms by (fastforce simp: stores_lists_def list_all_iff)

lemma get_zones_cong:
  assumes ok: "stores_lists self h" and ok2: "stores_lists self h2"
    and same: "\<forall>(k, a) \<in> set (keyframes self). cells h2 a = cells h a"
  shows "\<exists>zs. get_zones_at_frame self h f =
                 (Inr (top h), h\<lparr>cells := (cells h)(top h := PList zs), top := Suc (top h)\<rparr>)
             \<and> get_zones_at_frame self h2 f =
                 (Inr (top h2), h2\<lparr>cells := (cells h2)(top h2 := PList zs), top := Suc (top h2)\<rparr>)"
proof (cases "\<exists>k \<in> set (dict_keys (keyframes self)). k \<le> f")
  case False
  then have none: "\<forall>k \<in> set (dict_keys (keyframes self)). \<not> k \<le> f" by blast
  show ?thesis
    unfolding get_zones_no_keyframe [OF none] by (intro exI [of _ "[]"] conjI refl)
next
  case True
  let ?m = "Max {k \<in> set (dict_keys (keyframes self)). k \<le> f}"
  from get_zones_nearest [OF ok True] obtain a0 zs where
    a0: "map_of (keyframes self) ?m = Some a0" and zs: "cells h a0 = PList zs" and
    r: "get_zones_at_frame self h f =
          (Inr (top h), h\<lparr>cells := (cells h)(top h := PList zs), top := Suc (top h)\<rparr>)"
    by blast
  from get_zones_nearest [OF ok2 True] obtain a0' zs' where
    a0': "map_of (keyframes self) ?m = Some a0'" and zs': "cells h2 a0' = PList zs'" and
    r2: "get_zones_at_frame self h2 f =
          (Inr (top h2), h2\<lparr>cells := (cells h2)(top h2 := PList zs'), top := Suc (top h2)\<rparr>)"
    by blast
  from a0 a0' have "a0' = a0" by simp
  moreover from a0 have "(?m, a0) \<in> set (keyframes self)" by (rule map_of_SomeD)
  with same have "cells h2 a0 = cells h a0" by blast
  ultimately have "zs' = zs" using zs zs' by simp
  with r r2 show ?thesis by blast
qed

lemma get_zones_contents:
  assumes ok: "stores_lists self h"
  shows "\<exists>zs. get_zones_at_frame self h f =
                 (Inr (top h), h\<lparr>cells := (cells h)(top h := PList zs), top := Suc (top h)\<rparr>)
           \<and> ((\<forall>k \<in> set (dict_keys (keyframes self)). \<not> k \<le> f) \<longrightarrow> zs = [])
           \<and> (\<forall>k a0. map_of (keyframes self) k = Some a0 \<and> k \<le> f
                  \<and> (\<forall>k' \<in> set (dict_keys (keyframes self)). k' \<le> f \<longrightarrow> k' \<le> k)
                \<longrightarrow> cells h a0 = PList zs)"
proof (cases "\<exists>k \<in> set (dict_keys (keyframes self)). k \<le> f")
  case False
  then have none: "\<forall>k \<in> set (dict_keys (keyframes self)). \<not> k \<le> f"
    by blast
  have "\<not> k \<le> f" if "map_of (keyframes self) k = Some a0" for k a0
  proof -
    from that have "k \<in> set (dict_keys (keyframes self))"
      by (metis dict_keys_def domI dom_map_of_conv_image_fst image_set)
    with none show ?thesis by blast
  qed
  then show ?thesis
    unfolding get_zones_no_keyframe [OF none] by (intro exI [of _ "[]"]) auto
next
  case True
  let ?S = "{k \<in> set (dict_keys (keyframes self)). k \<le> f}"
  from get_zones_nearest [OF ok True] obtain a0 zs where
    a0: "map_of (keyframes self) (Max ?S) = Some a0" and
    zs: "cells h a0 = PList zs" and
    res: "get_zones_at_frame self h f =
            (Inr (top h), h\<lparr>cells := (cells h)(top h := PList zs), top := Suc (top h)\<rparr>)"
    by blast
  have fin: "finite ?S" by simp
  from True have ne: "?S \<noteq> {}" by blast
  have max_in: "Max ?S \<in> ?S"
    using fin ne by (rule Max_in)
  have greatest: "cells h a1 = PList zs"
    if "map_of (keyframes self) k = Some a1" "k \<le> f"
       "\<forall>k' \<in> set (dict_keys (keyframes self)). k' \<le> f \<longrightarrow> k' \<le> k" for k a1
  proof -
    from that(1) have "k \<in> set (dict_keys (keyframes self))"
      by (metis dict_keys_def domI dom_map_of_conv_image_fst image_set)
    with that(2) have "k \<in> ?S" by simp
    with fin have "k \<le> Max ?S" by (rule Max_ge)
    moreover from max_in that(3) have "Max ?S \<le> k" by simp
    ultimately have "k = Max ?S" by simp
    with a0 that(1) zs show ?thesis by simp
  qed
  from True greatest res show ?thesis
    by (intro exI [of _ zs]) blast
qed

text \<open>
  Claim C10.  The list \<open>get_zones_at_frame\<close> returns is a new copy of the stored keyframe's
  zone list: it holds the zones stored under the greatest keyframe at or before the frame (and is
  empty when there is none), and it is a new object, none of the lists the timeline stores.  So
  the call itself, an \<open>append\<close> to the returned list and a \<open>pop\<close> from it all leave every
  keyframe of the timeline with the contents it had, and a later call for the same frame returns
  the same zones again.
\<close>

theorem get_zones_at_frame_fresh_copy:
  assumes ok: "stores_lists self h"
  shows "\<exists>a h1 zs. get_zones_at_frame self h f = (Inr a, h1)
           \<and> cells h1 a = PList zs
           \<and> ((\<forall>k \<in> set (dict_keys (keyframes self)). \<not> k \<le> f) \<longrightarrow> zs = [])
           \<and> (\<forall>k a0. map_of (keyframes self) k = Some a0 \<and> k \<le> f
                  \<and> (\<forall>k' \<in> set (dict_keys (keyframes self)). k' \<le> f \<longrightarrow> k' \<le> k)
                \<longrightarrow> cells h a0 = PList zs)
           \<and> a \<notin> snd ` set (keyframes self)
           \<and> timeline_view self h1 = timeline_view self h
           \<and> (\<forall>v. timeline_view self (snd (list_append h1 a v)) = timeline_view self h)
           \<and> (\<forall>i. timeline_view self (snd (list_pop h1 a i)) = timeline_view self h)
           \<and> (\<forall>v. \<exists>a2 h3. get_zones_at_frame self (snd (list_append h1 a v)) f = (Inr a2, h3)
                     \<and> cells h3 a2 = PList zs)
           \<and> (\<forall>i. \<exists>a2 h3. get_zones_at_frame self (snd (list_pop h1 a i)) f = (Inr a2, h3)
                     \<and> cells h3 a2 = PList zs)"
proof -
  from get_zones_contents [OF ok, of f] obtain zs where
    r: "get_zones_at_frame self h f =
          (Inr (top h), h\<lparr>cells := (cells h)(top h := PList zs), top := Suc (top h)\<rparr>)" and
    empty: "(\<forall>k \<in> set (dict_keys (keyframes self)). \<not> k \<le> f) \<longrightarrow> zs = []" and
    stored: "\<forall>k a0. map_of (keyframes self) k = Some a0 \<and> k \<le> f
                  \<and> (\<forall>k' \<in> set (dict_keys (keyframes self)). k' \<le> f \<longrightarrow> k' \<le> k)
                \<longrightarrow> cells h a0 = PList zs"
    by blast
  let ?a = "top h"
  let ?h1 = "h\<lparr>cells := (cells h)(top h := PList zs), top := Suc (top h)\<rparr>"
  have here: "cells ?h1 ?a = PList zs"
    by simp
  have fresh: "?a \<notin> snd ` set (keyframes self)"
    using stores_lists_addr [OF ok] by fastforce
  have untouched: "\<forall>(k, a) \<in> set (keyframes self). cells h2 a = cells h a"
    if "\<forall>b. b \<noteq> ?a \<longrightarrow> cells h2 b = cells h b" for h2 :: heap
    using that fresh by force
  have later: "timeline_view self h2 = timeline_view self h
      \<and> (\<exists>a2 h3. get_zones_at_frame self h2 f = (Inr a2, h3) \<and> cells h3 a2 = PList zs)"
    if same: "\<forall>b. b \<noteq> ?a \<longrightarrow> cells h2 b = cells h b" and t: "top h \<le> top h2" for h2 :: heap
  proof -
    note u = untouched [OF same]
    have ok2: "stores_lists self h2"
      using ok t u by (rule stores_lists_cong)
    from get_zones_cong [OF ok ok2 u, of f] obtain zs' where
      r1: "get_zones_at_frame self h f =
         (Inr (top h), h\<lparr>cells := (cells h)(top h := PList zs'), top := Suc (top h)\<rparr>)" and
      r2: "get_zones_at_frame self h2 f =
         (Inr (top h2), h2\<lparr>cells := (cells h2)(top h2 := PList zs'), top := Suc (top h2)\<rparr>)"
      by blast
    have "cells (snd (get_zones_at_frame self h f)) (top h) = PList zs"
      by (simp add: r)
    moreover have "cells (snd (get_zones_at_frame self h f)) (top h) = PList zs'"
      by (simp add: r1)
    ultimately have "zs' = zs" by simp
    with r2 show ?thesis
      using timeline_view_cong [OF u] by simp
  qed
  have h1: "\<forall>b. b \<noteq> ?a \<longrightarrow> cells ?h1 b = cells h b" "top h \<le> top ?h1"
    by simp_all
  have app: "\<forall>b. b \<noteq> ?a \<longrightarrow> cells (snd (list_append ?h1 ?a v)) b = cells h b"
    "top h \<le> top (snd (list_append ?h1 ?a v))" for v
    by (simp_all add: list_append_def)
  have pop: "\<forall>b. b \<noteq> ?a \<longrightarrow> cells (snd (list_pop ?h1 ?a i)) b = cells h b"
    "top h \<le> top (snd (list_pop ?h1 ?a i))" for i
    by (simp_all add: list_pop_def Let_def)
  from later [OF h1] have l1: "timeline_view self ?h1 = timeline_view self h"
    by blast
  from later [OF app] have l2: "\<forall>v. timeline_view self (snd (list_append ?h1 ?a v)) = timeline_view self h
      \<and> (\<exists>a2 h3. get_zones_at_frame self (snd (list_append ?h1 ?a v)) f = (Inr a2, h3) \<and> cells h3 a2 = PList zs)"
    by blast
  from later [OF pop] have l3: "\<forall>i. timeline_view self (snd (list_pop ?h1 ?a i)) = timeline_view self h
      \<and> (\<exists>a2 h3. get_zones_at_frame self (snd (list_pop ?h1 ?a i)) f = (Inr a2, h3) \<and> cells h3 a2 = PList zs)"
    by blast
  show ?thesis
    unfolding r
  proof (intro exI [of _ ?a] exI [of _ ?h1] exI [of _ zs] conjI)
    show "(Inr ?a, ?h1) = (Inr ?a, ?h1)" by (rule refl)
  qed (use here empty stored fresh l1 l2 l3 in blast)+
qed

theorem get_zones_at_frame_fresh_copy_witness:
  "stores_lists example_manager example_heap
   \<and> (\<exists>a h1. get_zones_at_frame example_manager example_heap 5 = (Inr a, h1)
         \<and> cells h1 a = PList [zone_A]
         \<and> a \<notin> snd ` set (keyframes example_manager)
         \<and> timeline_view example_manager (snd (list_append h1 a zone_B))
             = [(0, PList [zone_A]), (10, PList [zone_B])]
         \<and> timeline_view example_manager (snd (list_pop h1 a 0))
             = [(0, PList [zone_A]), (10, PList [zone_B])]
         \<and> (\<exists>a2 h3. get_zones_at_frame example_manager (snd (list_append h1 a zone_B)) 5 = (Inr a2, h3)
               \<and> cells h3 a2 = PList [zone_A]))"
proof -
  have view: "timeline_view example_manager example_heap = [(0, PList [zone_A]), (10, PList [zone_B])]"
    by (simp add: timeline_view_def example_manager_def example_heap_def)
  have keys: "dict_keys (keyframes example_manager) = [0, 10]"
    by (simp add: dict_keys_def example_manager_def)
  have m0: "map_of (keyframes example_manager) 0 = Some 0"
    by (simp add: example_manager_def)
  have c0: "cells example_heap 0 = PList [zone_A]"
    by (simp add: example_heap_def)
  from get_zones_at_frame_fresh_copy [OF example_stores_lists, of 5] obtain a h1 zs where
    r: "get_zones_at_frame example_manager example_heap 5 = (Inr a, h1)" and
    c: "cells h1 a = PList zs" and
    g: "\<forall>k a0. map_of (keyframes example_manager) k = Some a0 \<and> k \<le> 5
                \<and> (\<forall>k' \<in> set (dict_keys (keyframes example_manager)). k' \<le> 5 \<longrightarrow> k' \<le> k)
              \<longrightarrow> cells example_heap a0 = PList zs" and
    fresh: "a \<notin> snd ` set (keyframes example_manager)" and
    ap: "\<forall>v. timeline_view example_manager (snd (list_append h1 a v))
           = timeline_view example_manager example_heap" and
    po: "\<forall>i. timeline_view example_manager (snd (list_pop h1 a i))
           = timeline_view example_manager example_heap" and
    again: "\<forall>v. \<exists>a2 h3. get_zones_at_frame example_manager (snd (list_append h1 a v)) 5 = (Inr a2, h3)
                     \<and> cells h3 a2 = PList zs"
    by blast
  from g [rule_format, of 0 0] m0 c0 have zs: "zs = [zone_A]"
    by (simp add: keys)
  from r c fresh ap po again view example_stores_lists show ?thesis
    unfolding zs by auto
qed

subsection \<open>\<open>int(str(k)) = k\<close>\<close>

lemma digit_char_is_digit: "n < 10 \<Longrightarrow> is_digit (digit_char n)"
  by (simp add: is_digit_def digit_char_def)

lemma digit_val_char: "n < 10 \<Longrightarrow> digit_val (digit_char n) = n"
  by (simp add: digit_val_def digit_char_def)

lemma digit_not_space: "is_digit c \<Longrightarrow> \<not> is_space c"
  by (auto simp: is_digit_def is_space_def)

lemma digits_all_digit: "\<forall>c \<in> set (digits n). is_digit c"
proof (induction n rule: digits.induct)
  case (1 n)
  show ?case
  proof (cases "n < 10")
    case True
    then show ?thesis by (subst digits.simps) (simp add: digit_char_is_digit)
  next
    case False
    with "1" have "\<forall>c \<in> set (digits (n div 10)). is_digit c" by simp
    moreover have "is_digit (digit_char (n mod 10))" by (simp add: digit_char_is_digit)
    ultimately show ?thesis using False by (subst digits.simps) simp
  qed
qed

lemma digits_nonempty: "digits n \<noteq> []"
  by (subst digits.simps) simp

lemma parse_digits_all_digit:
  "\<forall>c \<in> set ds. is_digit c \<Longrightarrow> ds \<noteq> [] \<Longrightarrow>
     parse_digits acc b ds = Some (foldl (\<lambda>a c. 10 * a + digit_val c) acc ds)"
proof (induction ds arbitrary: acc b)
  case Nil
  then show ?case by simp
next
  case (Cons c cs)
  show ?case
  proof (cases "cs = []")
    case True
    with Cons.prems show ?thesis by simp
  next
    case False
    with Cons show ?thesis by simp
  qed
qed

lemma foldl_digits: "foldl (\<lambda>a c. 10 * a + digit_val c) 0 (digits n) = n"
proof (induction n rule: digits.induct)
  case (1 n)
  show ?case
  proof (cases "n < 10")
    case True
    then show ?thesis by (subst digits.simps) (simp add: digit_val_char)
  next
    case False
    with "1" have "foldl (\<lambda>a c. 10 * a + digit_val c) 0 (digits (n div 10)) = n div 10" by simp
    with False show ?thesis
      by (subst digits.simps) (simp add: digit_val_char)
  qed
qed

lemma parse_digits_digits: "parse_digits 0 False (digits n) = Some n"
  by (simp add: parse_digits_all_digit digits_all_digit digits_nonempty foldl_digits)

lemma dropWhile_id: "xs \<noteq> [] \<Longrightarrow> \<not> P (hd xs) \<Longrightarrow> dropWhile P xs = xs"
  by (cases xs) auto

lemma py_strip_id:
  assumes "s \<noteq> []" "\<not> is_space (hd s)" "\<not> is_space (last s)"
  shows "py_strip s = s"
proof -
  have "dropWhile is_space s = s"
    using assms by (simp add: dropWhile_id)
  moreover have "dropWhile is_space (rev s) = rev s"
    using assms by (intro dropWhile_id) (simp_all add: hd_rev)
  ultimately show ?thesis by (simp add: py_strip_def)
qed

lemma py_strip_py_str: "py_strip (py_str k) = py_str k"
proof (rule py_strip_id)
  show "py_str k \<noteq> []" by (simp add: py_str_def digits_nonempty)
  show "\<not> is_space (hd (py_str k))"
  proof (cases "k < 0")
    case True
    then show ?thesis by (simp add: py_str_def is_space_def)
  next
    case False
    have "hd (digits (nat k)) \<in> set (digits (nat k))"
      by (simp add: digits_nonempty)
    then show ?thesis using False digits_all_digit digit_not_space
      by (auto simp: py_str_def)
  qed
  have "last (py_str k) = last (digits (nat \<bar>k\<bar>))"
    by (simp add: py_str_def digits_nonempty)
  moreover have "last (digits (nat \<bar>k\<bar>)) \<in> set (digits (nat \<bar>k\<bar>))"
    by (simp add: digits_nonempty)
  ultimately show "\<not> is_space (last (py_str k))"
    using digits_all_digit digit_not_space by auto
qed

lemma hd_digits_not_sign: "hd (digits n) \<noteq> CHR ''-'' \<and> hd (digits n) \<noteq> CHR ''+''"
proof -
  have "hd (digits n) \<in> set (digits n)" by (simp add: digits_nonempty)
  then have "is_digit (hd (digits n))" using digits_all_digit by blast
  then show ?thesis by (auto simp: is_digit_def)
qed

lemma py_int_py_str: "py_int (py_str k) = Inr k"
proof (cases "k < 0")
  case True
  then show ?thesis
    unfolding py_int_def py_strip_py_str
    by (simp add: py_str_def parse_digits_digits)
next
  case False
  obtain c r where cr: "digits (nat k) = c # r"
    using digits_nonempty by (cases "digits (nat k)") auto
  with hd_digits_not_sign [of "nat k"] have "c \<noteq> CHR ''-''" "c \<noteq> CHR ''+''" by auto
  moreover have "parse_digits 0 False (c # r) = Some (nat k)"
    using parse_digits_digits [of "nat k"] cr by simp
  ultimately show ?thesis
    unfolding py_int_def py_strip_py_str using False cr
    by (simp add: py_str_def)
qed

section \<open>Properties of the sidecar persistence\<close>

lemma dict_set_fresh: "k \<notin> fst ` set d \<Longrightarrow> dict_set d k v = d @ [(k, v)]"
  by (induction d) auto

lemma foldl_dict_set_distinct:
  "distinct (map fst (d @ kvs)) \<Longrightarrow> foldl (\<lambda>d (k, v). dict_set d k v) d kvs = d @ kvs"
proof (induction kvs arbitrary: d)
  case Nil
  then show ?case by simp
next
  case (Cons kv kvs)
  obtain k v where kv: "kv = (k, v)" by (cases kv)
  from Cons.prems have fresh: "k \<notin> fst ` set d"
    by (auto simp: kv)
  from Cons.prems have "distinct (map fst ((d @ [(k, v)]) @ kvs))"
    by (simp add: kv)
  from Cons.IH [OF this] show ?case
    by (simp add: kv dict_set_fresh [OF fresh])
qed

lemma dict_of_items_distinct: "distinct (map fst kvs) \<Longrightarrow> dict_of_items kvs = kvs"
  using foldl_dict_set_distinct [of "[]" kvs] by (simp add: dict_of_items_def)

lemma py_str_inj: "inj py_str"
proof (rule injI)
  fix a b assume "py_str a = py_str b"
  then have "py_int (py_str a) = py_int (py_str b)" by simp
  then show "a = b" by (simp add: py_int_py_str)
qed

lemma distinct_py_str_keys:
  assumes "distinct (map fst kvs)"
  shows "distinct (map fst (map (\<lambda>(k, v). (py_str k, v)) kvs))"
proof -
  have eq: "map fst (map (\<lambda>(k, v). (py_str k, v)) kvs) = map py_str (map fst kvs)"
    by (induction kvs) auto
  have "distinct (map py_str (map fst kvs))"
  proof -
    have "inj_on py_str (set (map fst kvs))"
      by (rule inj_on_subset [OF py_str_inj subset_UNIV])
    with assms show ?thesis
      by (simp only: distinct_map [of py_str "map fst kvs"] simp_thms)
  qed
  then show ?thesis
    unfolding eq .
qed

lemma to_dict_distinct:
  "distinct (dict_keys (keyframes self)) \<Longrightarrow>
     to_dict self = map (\<lambda>(k, a). (py_str k, a)) (keyframes self)"
  unfolding to_dict_def dict_keys_def
  by (intro dict_of_items_distinct distinct_py_str_keys)

lemma int_keys_py_str:
  "distinct (map fst (d @ kvs)) \<Longrightarrow>
     int_keys (map (\<lambda>(k, v). (py_str k, v)) kvs) d = Inr (d @ kvs)"
proof (induction kvs arbitrary: d)
  case Nil
  then show ?case by simp
next
  case (Cons kv kvs)
  obtain k v where kv: "kv = (k, v)" by (cases kv)
  from Cons.prems have fresh: "k \<notin> fst ` set d"
    by (auto simp: kv)
  from Cons.prems have "distinct (map fst ((d @ [(k, v)]) @ kvs))"
    by (simp add: kv)
  from Cons.IH [OF this] show ?case
    by (simp add: kv py_int_py_str dict_set_fresh [OF fresh])
qed

lemma store_values_props:
  "store_values kvs h = (d, h') \<Longrightarrow>
     map fst d = map fst kvs
     \<and> map (\<lambda>(k, a). (k, cells h' a)) d = kvs
     \<and> top h \<le> top h'
     \<and> (\<forall>(k, a) \<in> set d. a < top h')
     \<and> (\<forall>b < top h. cells h' b = cells h b)"
proof (induction kvs arbitrary: h d h')
  case Nil
  then show ?case by simp
next
  case (Cons kv kvs)
  obtain k v where kv: "kv = (k, v)" by (cases kv)
  let ?h1 = "h\<lparr>cells := (cells h)(top h := v), top := Suc (top h)\<rparr>"
  obtain d2 h2 where rec: "store_values kvs ?h1 = (d2, h2)"
    by (cases "store_values kvs ?h1")
  from Cons.prems have d: "d = (k, top h) # d2" and h': "h' = h2"
    by (simp_all add: kv alloc_def rec)
  from Cons.IH [OF rec] have
    ih1: "map fst d2 = map fst kvs" and
    ih2: "map (\<lambda>(k, a). (k, cells h2 a)) d2 = kvs" and
    ih3: "top ?h1 \<le> top h2" and
    ih4: "\<forall>(k, a) \<in> set d2. a < top h2" and
    ih5: "\<forall>b < top ?h1. cells h2 b = cells ?h1 b"
    by auto
  from ih5 have at_top: "cells h2 (top h) = v" by simp
  from ih5 have below: "\<forall>b < top h. cells h2 b = cells h b" by simp
  from ih3 have le: "top h < top h2" by simp
  show ?case
    using ih1 ih2 ih4 at_top below le by (simp add: d h' kv)
qed

lemma saved_document:
  assumes "distinct (dict_keys (keyframes self))"
  shows "save_to_file self h sc p =
           (p @ ''.zones.json'',
            sc(p @ ''.zones.json'' \<mapsto>
                 Document (JObj (map (\<lambda>(k, a). (py_str k, json_dump (cells h a))) (keyframes self)))))"
proof -
  have eq: "map (map_prod id json_dump) (map (\<lambda>(k, a). (k, cells h a)) (map (\<lambda>(k, a). (py_str k, a)) kfs))
          = map (\<lambda>(k, a). (py_str k, json_dump (cells h a))) kfs" for kfs :: "(int \<times> addr) list"
    by (induction kfs) auto
  show ?thesis
    unfolding save_to_file_def Let_def to_dict_distinct [OF assms] json_dump.simps eq ..
qed

lemma loaded_document:
  assumes "distinct (dict_keys (keyframes self))"
  shows "json_load (JObj (map (\<lambda>(k, a). (py_str k, json_dump (cells h a))) (keyframes self)))
           = PDict (map (\<lambda>(k, v). (py_str k, v))
                      (map (\<lambda>(k, a). (k, json_load (json_dump (cells h a)))) (keyframes self)))"
proof -
  let ?items = "map (\<lambda>(k, v). (py_str k, v))
                  (map (\<lambda>(k, a). (k, json_load (json_dump (cells h a)))) (keyframes self))"
  have eq: "map (map_prod id json_load)
              (map (\<lambda>(k, a). (py_str k, json_dump (cells h a))) kfs)
            = map (\<lambda>(k, v). (py_str k, v))
                (map (\<lambda>(k, a). (k, json_load (json_dump (cells h a)))) kfs)"
    for kfs :: "(int \<times> addr) list"
    by (induction kfs) auto
  have keys: "map fst (map (\<lambda>(k, a). (k, json_load (json_dump (cells h a)))) (keyframes self))
                = map fst (keyframes self)"
    by (induction "keyframes self") auto
  have "distinct (map fst ?items)"
  proof (rule distinct_py_str_keys)
    show "distinct (map fst (map (\<lambda>(k, a). (k, json_load (json_dump (cells h a)))) (keyframes self)))"
      unfolding keys using assms unfolding dict_keys_def .
  qed
  then have "dict_of_items ?items = ?items"
    by (rule dict_of_items_distinct)
  then show ?thesis
    unfolding json_load.simps eq by (simp only:)
qed

lemma load_after_save:
  assumes dist: "distinct (dict_keys (keyframes self))"
  shows "\<exists>self' h'. load_from_file self0 h0 (snd (save_to_file self h sc p)) p = (Inr True, self', h')
           \<and> timeline_view self' h' = map (\<lambda>(k, v). (k, json_load (json_dump v))) (timeline_view self h)
           \<and> (\<forall>(k, a) \<in> set (keyframes self'). a < top h')"
proof -
  define kvs where "kvs = map (\<lambda>(k, a). (k, json_load (json_dump (cells h a)))) (keyframes self)"
  have keys: "map fst kvs = map fst (keyframes self)"
    unfolding kvs_def by (induction "keyframes self") auto
  have "distinct (map fst ([] @ kvs))"
    unfolding append_Nil keys using dist unfolding dict_keys_def .
  from int_keys_py_str [OF this]
  have ik: "int_keys (map (\<lambda>(k, v). (py_str k, v)) kvs) [] = Inr kvs"
    by simp
  obtain d' h' where sv: "store_values kvs h0 = (d', h')"
    by (cases "store_values kvs h0")
  from store_values_props [OF sv] have
    view: "map (\<lambda>(k, a). (k, cells h' a)) d' = kvs" and
    addrs: "\<forall>(k, a) \<in> set d'. a < top h'"
    by auto
  have fd: "from_dict self0 h0 (PDict (map (\<lambda>(k, v). (py_str k, v)) kvs))
              = (Inr (), self0\<lparr>keyframes := d'\<rparr>, h')"
    by (simp add: from_dict_def ik sv)
  have doc: "json_load (JObj (map (\<lambda>(k, a). (py_str k, json_dump (cells h a))) (keyframes self)))
               = PDict (map (\<lambda>(k, v). (py_str k, v)) kvs)"
    unfolding kvs_def by (rule loaded_document [OF dist])
  have load: "load_from_file self0 h0 (snd (save_to_file self h sc p)) p
                = (Inr True, self0\<lparr>keyframes := d'\<rparr>, h')"
    unfolding saved_document [OF dist]
    by (simp add: load_from_file_def read_json_def doc fd del: json_load.simps)
  have "kvs = map (\<lambda>(k, v). (k, json_load (json_dump v))) (timeline_view self h)"
    unfolding kvs_def timeline_view_def by (induction "keyframes self") auto
  with view have "timeline_view (self0\<lparr>keyframes := d'\<rparr>) h'
                    = map (\<lambda>(k, v). (k, json_load (json_dump v))) (timeline_view self h)"
    by (simp add: timeline_view_def)
  with load addrs show ?thesis
    by auto
qed

lemma the_int_Some: "the_int v = Some i \<Longrightarrow> v = PInt i"
  by (cases v) auto

lemma four_ints_Some:
  assumes "four_ints xs = Some (x1, y1, x2, y2)"
  shows "xs = [PInt x1, PInt y1, PInt x2, PInt y2]"
  using assms
  by (auto simp: four_ints_def dest!: the_int_Some split: list.splits option.splits)

lemma zone_as_list:
  assumes "zone_coords z = Some r"
  shows "json_load (json_dump z) = as_list z \<and> zone_coords (as_list z) = Some r"
proof -
  obtain x1 y1 x2 y2 where r: "r = (x1, y1, x2, y2)"
    by (cases r)
  from assms consider xs where "z = PTuple xs" "four_ints xs = Some r"
    | xs where "z = PList xs" "four_ints xs = Some r"
    by (cases z) auto
  then show ?thesis
  proof cases
    case 1
    with four_ints_Some [of xs x1 y1 x2 y2] r show ?thesis
      by (auto simp: four_ints_def)
  next
    case 2
    with four_ints_Some [of xs x1 y1 x2 y2] r show ?thesis
      by (auto simp: four_ints_def)
  qed
qed

lemma zones_of_SomeD:
  assumes "zones_of v \<noteq> None"
  shows "\<exists>zs. v = PList zs \<and> (\<forall>z \<in> set zs. zone_coords z \<noteq> None)"
  using assms by (cases v) (auto simp: zones_of_def list_all_iff split: if_splits)

lemma zone_list_as_lists:
  assumes "zones_of v \<noteq> None"
  shows "json_load (json_dump v) = with_list_zones v \<and> zones_of (with_list_zones v) = zones_of v"
proof -
  from zones_of_SomeD [OF assms] obtain zs where
    v: "v = PList zs" and ok: "\<forall>z \<in> set zs. zone_coords z \<noteq> None"
    by blast
  have each: "json_load (json_dump z) = as_list z \<and> zone_coords (as_list z) = zone_coords z"
    if "z \<in> set zs" for z
  proof -
    from ok that obtain r where "zone_coords z = Some r" by auto
    with zone_as_list [OF this] show ?thesis by simp
  qed
  have "map json_load (map json_dump zs) = map as_list zs"
    using each by (induction zs) auto
  moreover have "map (\<lambda>z. case zone_coords z of Some r \<Rightarrow> r | None \<Rightarrow> (0, 0, 0, 0)) (map as_list zs)
                   = map (\<lambda>z. case zone_coords z of Some r \<Rightarrow> r | None \<Rightarrow> (0, 0, 0, 0)) zs"
    using each by (induction zs) auto
  moreover have "list_all (\<lambda>z. zone_coords z \<noteq> None) (map as_list zs)
                   = list_all (\<lambda>z. zone_coords z \<noteq> None) zs"
    using each by (induction zs) auto
  ultimately show ?thesis
    by (simp add: v zones_of_def)
qed

lemma zones_view_timeline_view:
  "zones_view self h = map (\<lambda>(k, v). (k, zones_of v)) (timeline_view self h)"
  unfolding zones_view_def timeline_view_def by (induction "keyframes self") auto

lemma keys_timeline_view: "dict_keys (keyframes self) = map fst (timeline_view self h)"
  unfolding dict_keys_def timeline_view_def by (induction "keyframes self") auto

lemma valid_timeline_view:
  "valid_timeline self h \<Longrightarrow> \<forall>(k, v) \<in> set (timeline_view self h). zones_of v \<noteq> None"
  by (auto simp: valid_timeline_def timeline_view_def list_all_iff)

text \<open>
  What the round trip through the sidecar file preserves.  For every valid timeline (distinct
  keyframe numbers, every keyframe a list of zones), saving and then loading, into any manager,
  succeeds and yields a valid timeline with the same keyframe numbers in the same order and, for
  each keyframe, the same list of rectangles \<open>(x1, y1, x2, y2)\<close>.  The last conjunct gives the
  Python values: every stored zone comes back as a list of its four coordinates, also where it
  was a tuple before.
\<close>

theorem save_then_load_round_trip:
  assumes valid: "valid_timeline self h"
  shows "\<exists>self' h'. load_from_file self0 h0 (snd (save_to_file self h sc p)) p = (Inr True, self', h')
           \<and> dict_keys (keyframes self') = dict_keys (keyframes self)
           \<and> zones_view self' h' = zones_view self h
           \<and> valid_timeline self' h'
           \<and> timeline_view self' h' = map (\<lambda>(k, v). (k, with_list_zones v)) (timeline_view self h)"
proof -
  from valid have dist: "distinct (dict_keys (keyframes self))"
    by (simp add: valid_timeline_def)
  from load_after_save [OF dist, of self0 h0 h sc p] obtain self' h' where
    load: "load_from_file self0 h0 (snd (save_to_file self h sc p)) p = (Inr True, self', h')" and
    tv: "timeline_view self' h' = map (\<lambda>(k, v). (k, json_load (json_dump v))) (timeline_view self h)" and
    addrs: "\<forall>(k, a) \<in> set (keyframes self'). a < top h'"
    by blast
  note zs = valid_timeline_view [OF valid]
  have tv': "map (\<lambda>(k, v). (k, json_load (json_dump v))) xs = map (\<lambda>(k, v). (k, with_list_zones v)) xs"
    if "\<forall>(k, v) \<in> set xs. zones_of v \<noteq> None" for xs :: "(int \<times> pyval) list"
    using that by (induction xs) (auto simp: zone_list_as_lists)
  have zv: "map (\<lambda>(k, v). (k, zones_of v)) (map (\<lambda>(k, v). (k, with_list_zones v)) xs)
              = map (\<lambda>(k, v). (k, zones_of v)) xs"
    if "\<forall>(k, v) \<in> set xs. zones_of v \<noteq> None" for xs :: "(int \<times> pyval) list"
    using that by (induction xs) (auto simp: zone_list_as_lists)
  have ks: "map fst (map (\<lambda>(k, v). (k, with_list_zones v)) xs) = map fst xs"
    for xs :: "(int \<times> pyval) list"
    by (induction xs) auto
  have tvl: "timeline_view self' h' = map (\<lambda>(k, v). (k, with_list_zones v)) (timeline_view self h)"
    unfolding tv by (rule tv' [OF zs])
  have keys: "dict_keys (keyframes self') = dict_keys (keyframes self)"
    unfolding keys_timeline_view [of self' h'] keys_timeline_view [of self h] tvl by (rule ks)
  have view: "zones_view self' h' = zones_view self h"
    unfolding zones_view_timeline_view tvl by (rule zv [OF zs])
  have "zones_of (cells h' a) \<noteq> None" if "(k, a) \<in> set (keyframes self')" for k a
  proof -
    from that have "(k, zones_of (cells h' a)) \<in> set (zones_view self' h')"
      by (force simp: zones_view_def)
    then have "(k, zones_of (cells h' a)) \<in> set (zones_view self h)"
      by (simp only: view)
    then obtain a0 where "(k, a0) \<in> set (keyframes self)" "zones_of (cells h' a) = zones_of (cells h a0)"
      by (auto simp: zones_view_def)
    with valid show ?thesis
      by (auto simp: valid_timeline_def list_all_iff)
  qed
  with addrs dist keys have "valid_timeline self' h'"
    by (auto simp: valid_timeline_def list_all_iff)
  with load keys view tvl show ?thesis
    by blast
qed

lemma example_valid_timeline: "valid_timeline example_manager example_heap"
  by (simp add: valid_timeline_def example_manager_def example_heap_def dict_keys_def
      zones_of_def zone_A_def zone_B_def four_ints_def)

theorem save_then_load_example:
  "valid_timeline example_manager example_heap
   \<and> (\<exists>self' h'.
         load_from_file init_manager empty_heap
           (snd (save_to_file example_manager example_heap Map.empty ''video.mp4'')) ''video.mp4''
           = (Inr True, self', h')
         \<and> dict_keys (keyframes self') = [0, 10]
         \<and> zones_view self' h' = [(0, Some [(10, 10, 50, 50)]), (10, Some [(100, 20, 200, 80)])]
         \<and> timeline_view self' h'
             = [(0, PList [PList [PInt 10, PInt 10, PInt 50, PInt 50]]),
                (10, PList [PList [PInt 100, PInt 20, PInt 200, PInt 80]])])"
proof -
  have keys: "dict_keys (keyframes example_manager) = [0, 10]"
    by (simp add: dict_keys_def example_manager_def)
  have zv: "zones_view example_manager example_heap
              = [(0, Some [(10, 10, 50, 50)]), (10, Some [(100, 20, 200, 80)])]"
    by (simp add: zones_view_def example_manager_def example_heap_def zones_of_def
        zone_A_def zone_B_def four_ints_def)
  have tv: "map (\<lambda>(k, v). (k, with_list_zones v)) (timeline_view example_manager example_heap)
              = [(0, PList [PList [PInt 10, PInt 10, PInt 50, PInt 50]]),
                 (10, PList [PList [PInt 100, PInt 20, PInt 200, PInt 80]])]"
    by (simp add: timeline_view_def example_manager_def example_heap_def zone_A_def zone_B_def)
  from save_then_load_round_trip [OF example_valid_timeline,
      of init_manager empty_heap Map.empty "''video.mp4''"]
  show ?thesis
    unfolding keys zv tv using example_valid_timeline by blast
qed

text \<open>
  Claim C7.  Persistence is to round-trip: loading the file that was saved yields a timeline
  equal to the original.  The code does not restore the tuples.  A timeline built by \<open>add_zone\<close>
  from drawn zones holds tuples, as the alias \<open>Zone = Tuple[int, int, int, int]\<close> and the format
  comment of \<open>_keyframes\<close> say; the file holds arrays; and \<open>from_dict\<close> stores the loaded lists
  as they are, where the processor's \<open>get_zones_at_frame\<close> converts each zone with \<open>tuple(z)\<close>.
  Here the example timeline \<open>{0: [A], 10: [B]}\<close>, built by \<open>add_zone\<close>, is saved and loaded:
  the load succeeds and keeps the keyframe numbers and the coordinates, but every zone is now a
  list, so the loaded timeline is not equal to the saved one.
\<close>

theorem save_then_load_turns_tuples_into_lists:
  "(case add_zone init_manager empty_heap 0 zone_A of
      (r, m, h) \<Rightarrow> add_zone m h 10 zone_B) = (Inr (), example_manager, example_heap)
   \<and> timeline_view example_manager example_heap
       = [(0, PList [PTuple [PInt 10, PInt 10, PInt 50, PInt 50]]),
          (10, PList [PTuple [PInt 100, PInt 20, PInt 200, PInt 80]])]
   \<and> (case load_from_file init_manager empty_heap
             (snd (save_to_file example_manager example_heap Map.empty ''video.mp4'')) ''video.mp4'' of
         (r, self', h') \<Rightarrow>
           r = Inr True
           \<and> timeline_view self' h'
               = [(0, PList [PList [PInt 10, PInt 10, PInt 50, PInt 50]]),
                  (10, PList [PList [PInt 100, PInt 20, PInt 200, PInt 80]])]
           \<and> timeline_view self' h' \<noteq> timeline_view example_manager example_heap
           \<and> zones_view self' h' = zones_view example_manager example_heap)"
proof -
  have before: "timeline_view example_manager example_heap
       = [(0, PList [PTuple [PInt 10, PInt 10, PInt 50, PInt 50]]),
          (10, PList [PTuple [PInt 100, PInt 20, PInt 200, PInt 80]])]"
    by (simp add: timeline_view_def example_manager_def example_heap_def zone_A_def zone_B_def)
  have zv: "zones_view example_manager example_heap
              = [(0, Some [(10, 10, 50, 50)]), (10, Some [(100, 20, 200, 80)])]"
    by (simp add: zones_view_def example_manager_def example_heap_def zones_of_def
        zone_A_def zone_B_def four_ints_def)
  from save_then_load_example obtain self' h' where
    load: "load_from_file init_manager empty_heap
             (snd (save_to_file example_manager example_heap Map.empty ''video.mp4'')) ''video.mp4''
             = (Inr True, self', h')" and
    view: "zones_view self' h' = [(0, Some [(10, 10, 50, 50)]), (10, Some [(100, 20, 200, 80)])]" and
    after: "timeline_view self' h'
              = [(0, PList [PList [PInt 10, PInt 10, PInt 50, PInt 50]]),
                 (10, PList [PList [PInt 100, PInt 20, PInt 200, PInt 80]])]"
    by blast
  have differ: "timeline_view self' h' \<noteq> timeline_view example_manager example_heap"
    unfolding after before by simp
  from example_built_by_add_zone before load after differ view zv show ?thesis
    by simp
qed

text \<open>
  What \<open>load_from_file\<close> does on a missing, undecodable or unreadable file: it returns
  \<open>False\<close> and the timeline is as before.  Whenever it does not return \<open>True\<close>, the timeline
  is unchanged.
\<close>

lemma load_from_file_missing:
  "sc (p @ ''.zones.json'') = None \<Longrightarrow> load_from_file self h sc p = (Inr False, self, h)"
  by (simp add: load_from_file_def)

lemma load_from_file_malformed:
  "sc (p @ ''.zones.json'') = Some Malformed \<Longrightarrow> load_from_file self h sc p = (Inr False, self, h)"
  by (simp add: load_from_file_def read_json_def)

lemma load_from_file_unreadable:
  "sc (p @ ''.zones.json'') = Some Unreadable \<Longrightarrow> load_from_file self h sc p = (Inr False, self, h)"
  by (simp add: load_from_file_def read_json_def)

lemma from_dict_raises_unchanged:
  "from_dict self h data = (Inl e, self', h') \<Longrightarrow> self' = self \<and> h' = h"
  by (auto simp: from_dict_def split: pyval.splits sum.splits prod.splits)

lemma load_from_file_not_True_unchanged:
  assumes "load_from_file self h sc p = (r, self', h')" and "r \<noteq> Inr True"
  shows "self' = self \<and> h' = h"
proof (cases "sc (p @ ''.zones.json'')")
  case None
  with assms show ?thesis by (simp add: load_from_file_def)
next
  case (Some f)
  show ?thesis
  proof (cases "read_json f")
    case (Inl e)
    with Some assms show ?thesis
      by (auto simp: load_from_file_def split: if_splits)
  next
    case (Inr data)
    obtain r0 s0 h0 where fd: "from_dict self h data = (r0, s0, h0)"
      by (cases "from_dict self h data")
    show ?thesis
    proof (cases r0)
      case (Inl e)
      with from_dict_raises_unchanged fd have "s0 = self \<and> h0 = h" by blast
      with Some Inr fd Inl assms show ?thesis
        by (auto simp: load_from_file_def split: if_splits)
    next
      case (Inr u)
      with Some \<open>read_json f = Inr data\<close> fd assms show ?thesis
        by (auto simp: load_from_file_def)
    qed
  qed
qed

text \<open>
  Claim C8.  \<open>load_from_file\<close> is to report every malformed sidecar file by returning
  \<open>False\<close>, never by an exception, and to return \<open>True\<close> only for a conforming document.
  The code catches \<open>JSONDecodeError\<close> and \<open>IOError\<close> only: for the JSON array \<open>[]\<close> the
  call \<open>data.items()\<close> raises \<open>AttributeError\<close>, for the object \<open>{"abc": []}\<close> the
  conversion \<open>int("abc")\<close> raises \<open>ValueError\<close>, and both leave \<open>load_from_file\<close>; the object
  \<open>{"0": 5}\<close> is accepted with \<open>True\<close> although its value is no list of zones.
\<close>

theorem load_from_file_raises_on_nonconforming:
  "load_from_file example_manager example_heap
     [''video.mp4.zones.json'' \<mapsto> Document (JArr [])] ''video.mp4''
     = (Inl AttributeError, example_manager, example_heap)
   \<and> load_from_file example_manager example_heap
     [''video.mp4.zones.json'' \<mapsto> Document (JObj [(''abc'', JArr [])])] ''video.mp4''
     = (Inl ValueError, example_manager, example_heap)
   \<and> (case load_from_file example_manager example_heap
            [''video.mp4.zones.json'' \<mapsto> Document (JObj [(''0'', JNum 5)])] ''video.mp4'' of
         (r, self', h') \<Rightarrow> r = Inr True \<and> timeline_view self' h' = [(0, PInt 5)])"
proof (intro conjI)
  show "load_from_file example_manager example_heap
     [''video.mp4.zones.json'' \<mapsto> Document (JArr [])] ''video.mp4''
     = (Inl AttributeError, example_manager, example_heap)"
    by (simp add: load_from_file_def read_json_def from_dict_def)
  have abc: "py_int ''abc'' = Inl ValueError"
    by (simp add: py_int_def py_strip_def is_space_def is_digit_def)
  show "load_from_file example_manager example_heap
     [''video.mp4.zones.json'' \<mapsto> Document (JObj [(''abc'', JArr [])])] ''video.mp4''
     = (Inl ValueError, example_manager, example_heap)"
    by (simp add: load_from_file_def read_json_def from_dict_def dict_of_items_def abc)
  have zero: "py_int ''0'' = Inr 0"
    by (simp add: py_int_def py_strip_def is_space_def is_digit_def digit_val_def)
  show "case load_from_file example_manager example_heap
            [''video.mp4.zones.json'' \<mapsto> Document (JObj [(''0'', JNum 5)])] ''video.mp4'' of
         (r, self', h') \<Rightarrow> r = Inr True \<and> timeline_view self' h' = [(0, PInt 5)]"
    by (simp add: load_from_file_def read_json_def from_dict_def dict_of_items_def zero
        alloc_def timeline_view_def)
qed

section \<open>Properties of the mask synthesis\<close>

lemma rasterD: "raster h w m \<Longrightarrow> y < h \<Longrightarrow> length (m ! y) = w"
  by (simp add: raster_def list_all_length)

lemma raster_replicate: "raster h w (replicate h (replicate w v))"
  by (simp add: raster_def list_all_iff)

lemma fill_slice_raster: "raster h w m \<Longrightarrow> raster h w (fill_slice m y1 y2 x1 x2 v)"
  by (auto simp: raster_def fill_slice_def list_all_iff in_set_enumerate_eq)

lemma fill_slice_nth:
  assumes "raster h w m" "y < h" "x < w"
  shows "fill_slice m y1 y2 x1 x2 v ! y ! x =
           (if slice_index h y1 \<le> y \<and> y < slice_index h y2
               \<and> slice_index w x1 \<le> x \<and> x < slice_index w x2
            then v else m ! y ! x)"
proof -
  from assms have len: "length m = h" and row: "length (m ! y) = w"
    by (simp_all add: raster_def list_all_length)
  show ?thesis
    using assms(2,3) by (simp add: fill_slice_def len row nth_enumerate_eq)
qed

lemma slice_index_nonneg: "0 \<le> i \<Longrightarrow> i \<le> int n \<Longrightarrow> slice_index n i = nat i"
  by (simp add: slice_index_def)

lemma paint_zone_raster:
  "raster h w m \<Longrightarrow> raster h w (paint_zone width height m z)"
  by (cases z) (simp add: paint_zone_def Let_def fill_slice_raster)

lemma paint_zone_nth:
  assumes r: "raster (nat height) (nat width) m" and ok: "zone_ok width height z"
    and y: "y < nat height" and x: "x < nat width"
  shows "paint_zone width height m z ! y ! x =
           (if in_padded width height z x y then 255 else m ! y ! x)"
proof -
  obtain x1 y1 x2 y2 where z: "z = (x1, y1, x2, y2)"
    by (cases z)
  from ok have b: "0 \<le> x1" "x1 < x2" "x2 \<le> width" "0 \<le> y1" "y1 < y2" "y2 \<le> height"
    by (simp_all add: zone_ok_def z)
  have sx1: "slice_index (nat width) (max 0 (x1 - 8)) = nat (max 0 (x1 - 8))"
    using b by (intro slice_index_nonneg) auto
  have sx2: "slice_index (nat width) (min width (x2 + 8)) = nat (min width (x2 + 8))"
    using b by (intro slice_index_nonneg) auto
  have sy1: "slice_index (nat height) (max 0 (y1 - 8)) = nat (max 0 (y1 - 8))"
    using b by (intro slice_index_nonneg) auto
  have sy2: "slice_index (nat height) (min height (y2 + 8)) = nat (min height (y2 + 8))"
    using b by (intro slice_index_nonneg) auto
  have "paint_zone width height m z ! y ! x =
          (if nat (max 0 (y1 - 8)) \<le> y \<and> y < nat (min height (y2 + 8))
              \<and> nat (max 0 (x1 - 8)) \<le> x \<and> x < nat (min width (x2 + 8))
           then 255 else m ! y ! x)"
    unfolding paint_zone_def z prod.case Let_def
    by (simp only: fill_slice_nth [OF r y x] sx1 sx2 sy1 sy2)
  also have "\<dots> = (if in_padded width height z x y then 255 else m ! y ! x)"
    by (simp add: in_padded_def z nat_le_iff zless_nat_eq_int_zless)
  finally show ?thesis .
qed

lemma painted_zones:
  assumes "raster (nat height) (nat width) m" and "list_all (zone_ok width height) zs"
  shows "raster (nat height) (nat width) (foldl (paint_zone width height) m zs)
         \<and> (\<forall>y < nat height. \<forall>x < nat width.
               foldl (paint_zone width height) m zs ! y ! x =
                 (if list_ex (\<lambda>z. in_padded width height z x y) zs then 255 else m ! y ! x))"
  using assms
proof (induction zs arbitrary: m)
  case Nil
  then show ?case by simp
next
  case (Cons z zs)
  let ?m1 = "paint_zone width height m z"
  from Cons.prems have ok: "zone_ok width height z" and oks: "list_all (zone_ok width height) zs"
    by simp_all
  have r1: "raster (nat height) (nat width) ?m1"
    using Cons.prems(1) by (rule paint_zone_raster)
  from Cons.IH [OF r1 oks] have
    r: "raster (nat height) (nat width) (foldl (paint_zone width height) ?m1 zs)" and
    px: "\<And>y x. y < nat height \<Longrightarrow> x < nat width \<Longrightarrow>
           foldl (paint_zone width height) ?m1 zs ! y ! x =
             (if list_ex (\<lambda>z. in_padded width height z x y) zs then 255 else ?m1 ! y ! x)"
    by auto
  show ?case
    using r px paint_zone_nth [OF Cons.prems(1) ok] by simp
qed

lemma fold_max_ge: "e \<in> set (a # xs) \<Longrightarrow> e \<le> fold max xs (a :: 8 word)"
  unfolding Max.set_eq_fold [symmetric] by (rule Max_ge) simp_all

lemma fold_max_in: "fold max xs (a :: 8 word) \<in> set (a # xs)"
  unfolding Max.set_eq_fold [symmetric] by (rule Max_in) simp_all

lemma nth_in_take_drop:
  assumes "a \<le> i" "i < a + n" "i < length xs"
  shows "xs ! i \<in> set (take n (drop a xs))"
proof -
  have "i - a < length (take n (drop a xs))"
    using assms by (simp add: less_diff_conv2)
  moreover have "take n (drop a xs) ! (i - a) = xs ! i"
    using assms by simp
  ultimately show ?thesis
    by (metis nth_mem)
qed

lemma window_subset: "set (window r m y x) \<subseteq> (\<Union>row \<in> set m. set row)"
proof
  fix v assume "v \<in> set (window r m y x)"
  then obtain row where row: "row \<in> set (take (y + r + 1 - (y - r)) (drop (y - r) m))"
    and v: "v \<in> set (take (x + r + 1 - (x - r)) (drop (x - r) row))"
    by (auto simp: window_def)
  from row have "row \<in> set m"
    by (meson in_set_dropD in_set_takeD)
  moreover from v have "v \<in> set row"
    by (meson in_set_dropD in_set_takeD)
  ultimately show "v \<in> (\<Union>row \<in> set m. set row)"
    by blast
qed

lemma window_centre:
  assumes "y < length m" "x < length (m ! y)"
  shows "m ! y ! x \<in> set (window r m y x)"
proof -
  have "m ! y \<in> set (take (y + r + 1 - (y - r)) (drop (y - r) m))"
    using assms(1) by (intro nth_in_take_drop) simp_all
  moreover have "m ! y ! x \<in> set (take (x + r + 1 - (x - r)) (drop (x - r) (m ! y)))"
    using assms(2) by (intro nth_in_take_drop) simp_all
  ultimately show ?thesis
    by (auto simp: window_def)
qed

lemma dilate_once_raster: "raster h w m \<Longrightarrow> raster h w (dilate_once r m)"
  by (auto simp: raster_def dilate_once_def list_all_iff in_set_enumerate_eq)

lemma dilate_once_nth:
  assumes "y < length m" "x < length (m ! y)"
  shows "dilate_once r m ! y ! x = fold max (window r m y x) 0"
  using assms by (simp add: dilate_once_def nth_enumerate_eq)

lemma np_any_positive_iff:
  "np_any_positive m \<longleftrightarrow> (\<exists>row \<in> set m. \<exists>v \<in> set row. 0 < v)"
  by (simp add: np_any_positive_def list_ex_iff)

lemma np_any_positive_nth:
  assumes "raster h w m"
  shows "np_any_positive m \<longleftrightarrow> (\<exists>y < h. \<exists>x < w. 0 < m ! y ! x)"
proof
  assume "np_any_positive m"
  then obtain row v where "row \<in> set m" "v \<in> set row" "0 < v"
    by (auto simp: np_any_positive_iff)
  then obtain y x where "y < length m" "m ! y = row" "x < length row" "row ! x = v"
    by (metis in_set_conv_nth)
  with \<open>0 < v\<close> assms rasterD [OF assms, of y] show "\<exists>y < h. \<exists>x < w. 0 < m ! y ! x"
    by (auto simp: raster_def)
next
  assume "\<exists>y < h. \<exists>x < w. 0 < m ! y ! x"
  then obtain y x where yx: "y < h" "x < w" "0 < m ! y ! x"
    by blast
  with assms rasterD [OF assms, of y] have "m ! y \<in> set m" "m ! y ! x \<in> set (m ! y)"
    by (auto simp: raster_def)
  with yx(3) show "np_any_positive m"
    unfolding np_any_positive_iff by blast
qed

lemma dilate_once_positive:
  assumes r: "raster h w m"
  shows "np_any_positive (dilate_once r m) \<longleftrightarrow> np_any_positive m"
proof -
  note rd = dilate_once_raster [OF r, of r]
  have nth: "dilate_once r m ! y ! x = fold max (window r m y x) 0" if "y < h" "x < w" for y x
    using that r rasterD [OF r that(1)] by (intro dilate_once_nth) (simp_all add: raster_def)
  show ?thesis
  proof
    assume "np_any_positive (dilate_once r m)"
    then obtain y x where yx: "y < h" "x < w" "0 < dilate_once r m ! y ! x"
      unfolding np_any_positive_nth [OF rd] by blast
    let ?v = "fold max (window r m y x) 0"
    from yx have pos: "0 < ?v" by (simp add: nth)
    have "?v \<in> set (0 # window r m y x)" by (rule fold_max_in)
    with pos have "?v \<in> set (window r m y x)" by auto
    with window_subset obtain row where "row \<in> set m" "?v \<in> set row" by blast
    with pos show "np_any_positive m"
      unfolding np_any_positive_iff by blast
  next
    assume "np_any_positive m"
    then obtain y x where yx: "y < h" "x < w" "0 < m ! y ! x"
      unfolding np_any_positive_nth [OF r] by blast
    have "m ! y ! x \<in> set (window r m y x)"
      using yx r rasterD [OF r yx(1)] by (intro window_centre) (simp_all add: raster_def)
    then have "m ! y ! x \<le> fold max (window r m y x) 0"
      by (intro fold_max_ge) simp
    with yx have "0 < dilate_once r m ! y ! x"
      by (simp add: nth)
    with yx show "np_any_positive (dilate_once r m)"
      unfolding np_any_positive_nth [OF rd] by blast
  qed
qed

lemma cv2_dilate_props:
  "raster h w m \<Longrightarrow>
     raster h w (cv2_dilate r n m) \<and> (np_any_positive (cv2_dilate r n m) \<longleftrightarrow> np_any_positive m)"
proof (induction n)
  case 0
  then show ?case by (simp add: cv2_dilate_def)
next
  case (Suc n)
  then have r: "raster h w (cv2_dilate r n m)"
    and p: "np_any_positive (cv2_dilate r n m) \<longleftrightarrow> np_any_positive m"
    by simp_all
  have "cv2_dilate r (Suc n) m = dilate_once r (cv2_dilate r n m)"
    by (simp add: cv2_dilate_def)
  with dilate_once_raster [OF r] dilate_once_positive [OF r] p show ?case
    by simp
qed

text \<open>
  Claim C9.  For positive width and height and zones that satisfy the Zone invariant,
  \<open>create_mask_from_zones\<close> returns a raster of \<open>height\<close> rows of \<open>width\<close> pixels, which is
  all zero exactly when the zone list is empty.  The result is the dilation, with the 5 by 5
  kernel and two iterations, applied once to the merged raster \<open>u\<close>, whose pixel is 255 where
  it lies in some zone's rectangle padded by 8 and clamped to the frame, and 0 elsewhere.
\<close>

theorem create_mask_from_zones_raster:
  assumes w: "0 < width" and h: "0 < height"
    and ok: "list_all (zone_ok width height) zones"
  shows "\<exists>m u. create_mask_from_zones width height zones = Inr m
           \<and> raster (nat height) (nat width) m
           \<and> ((\<not> np_any_positive m) \<longleftrightarrow> zones = [])
           \<and> m = cv2_dilate 2 2 u
           \<and> raster (nat height) (nat width) u
           \<and> (\<forall>y < nat height. \<forall>x < nat width.
                 u ! y ! x = (if list_ex (\<lambda>z. in_padded width height z x y) zones then 255 else 0))"
proof -
  let ?zeros = "replicate (nat height) (replicate (nat width) (0 :: 8 word))"
  let ?u = "foldl (paint_zone width height) ?zeros zones"
  have res: "create_mask_from_zones width height zones = Inr (cv2_dilate 2 2 ?u)"
    using w h by (simp add: create_mask_from_zones_def np_zeros_def)
  from painted_zones [OF raster_replicate ok] have
    ru: "raster (nat height) (nat width) ?u" and
    px: "\<forall>y < nat height. \<forall>x < nat width.
           ?u ! y ! x = (if list_ex (\<lambda>z. in_padded width height z x y) zones then 255 else 0)"
    by simp_all
  from cv2_dilate_props [OF ru, of 2 2] have
    rm: "raster (nat height) (nat width) (cv2_dilate 2 2 ?u)" and
    pm: "np_any_positive (cv2_dilate 2 2 ?u) \<longleftrightarrow> np_any_positive ?u"
    by simp_all
  have "np_any_positive ?u \<longleftrightarrow> zones \<noteq> []"
  proof
    assume "np_any_positive ?u"
    then obtain y x where "y < nat height" "x < nat width" "0 < ?u ! y ! x"
      unfolding np_any_positive_nth [OF ru] by blast
    with px have "list_ex (\<lambda>z. in_padded width height z x y) zones"
      by (auto split: if_splits)
    then show "zones \<noteq> []" by auto
  next
    assume "zones \<noteq> []"
    then obtain z zs where zones: "zones = z # zs" by (cases zones) auto
    obtain x1 y1 x2 y2 where z: "z = (x1, y1, x2, y2)" by (cases z)
    from ok have b: "0 \<le> x1" "x1 < x2" "x2 \<le> width" "0 \<le> y1" "y1 < y2" "y2 \<le> height"
      by (simp_all add: zones z zone_ok_def)
    let ?x = "nat (max 0 (x1 - 8))" and ?y = "nat (max 0 (y1 - 8))"
    have xw: "?x < nat width" and yh: "?y < nat height"
      using b by auto
    have "in_padded width height z ?x ?y"
      using b by (auto simp: in_padded_def z)
    then have "list_ex (\<lambda>z. in_padded width height z ?x ?y) zones"
      by (simp add: zones)
    with px xw yh have "?u ! ?y ! ?x = 255" by simp
    then have "0 < ?u ! ?y ! ?x" by simp
    with xw yh show "np_any_positive ?u"
      unfolding np_any_positive_nth [OF ru] by blast
  qed
  with pm have "(\<not> np_any_positive (cv2_dilate 2 2 ?u)) \<longleftrightarrow> zones = []"
    by simp
  with res rm ru px show ?thesis
    by blast
qed

theorem create_mask_from_zones_raster_witness:
  "(0 :: int) < 640 \<and> (0 :: int) < 480 \<and> list_all (zone_ok 640 480) [(10, 10, 50, 50)]
   \<and> (\<exists>m. create_mask_from_zones 640 480 [(10, 10, 50, 50)] = Inr m
          \<and> raster 480 640 m \<and> np_any_positive m)
   \<and> (\<exists>m. create_mask_from_zones 640 480 [] = Inr m
          \<and> raster 480 640 m \<and> \<not> np_any_positive m)"
proof -
  have w: "(0 :: int) < 640" and h: "(0 :: int) < 480"
    by simp_all
  have ok: "list_all (zone_ok 640 480) [(10, 10, 50, 50)]"
    by (simp add: zone_ok_def)
  have ok0: "list_all (zone_ok 640 480) []"
    by simp
  from create_mask_from_zones_raster [OF w h ok]
  have one: "\<exists>m. create_mask_from_zones 640 480 [(10, 10, 50, 50)] = Inr m
               \<and> raster 480 640 m \<and> np_any_positive m"
    by auto
  from create_mask_from_zones_raster [OF w h ok0]
  have none: "\<exists>m. create_mask_from_zones 640 480 [] = Inr m
                \<and> raster 480 640 m \<and> \<not> np_any_positive m"
    by auto
  from w h ok one none show ?thesis
    by blast
qed

section \<open>Properties of the inpainter\<close>

lemma inpaint_frame_log:
  "inpaint_frame ext self frame msk log =
     (inpainted ext self (frame, msk),
      log @ (if invokes_model self (frame, msk) then [(frame, msk)] else []))"
  by (auto simp: inpaint_frame_def inpainted_def invokes_model_def Let_def split: option.splits)

lemma inpainted_zero_mask: "\<not> np_any_positive msk \<Longrightarrow> inpainted ext self (frame, msk) = frame"
  by (simp add: inpainted_def inpaint_frame_def)

lemma batch_loop_None:
  "batch_loop ext self None n_frames i fms results log =
     (Inr (results @ map (inpainted ext self) fms), log @ filter (invokes_model self) fms)"
proof (induction fms arbitrary: i results log)
  case Nil
  then show ?case by simp
next
  case (Cons fm fms)
  obtain frame msk where fm: "fm = (frame, msk)" by (cases fm)
  show ?case
  proof (cases "np_any_positive msk")
    case True
    then show ?thesis
      by (simp add: fm Cons.IH inpaint_frame_log)
  next
    case False
    then show ?thesis
      by (simp add: fm Cons.IH inpainted_zero_mask invokes_model_def)
  qed
qed


lemma batch_loop_quiet:
  assumes "quiet cb"
  shows "batch_loop ext self cb n i fms results log =
     (Inr (results @ map (inpainted ext self) fms), log @ filter (invokes_model self) fms)"
proof (cases cb)
  case None
  then show ?thesis by (simp add: batch_loop_None)
next
  case (Some f)
  with assms have "f c t = None" for c t
    by (simp add: quiet_def)
  then have f: "f = (\<lambda>c t. None)"
    by (intro ext)
  show ?thesis
    unfolding Some f
  proof (induction fms arbitrary: i results log)
    case Nil
    then show ?case by simp
  next
    case (Cons fm fms)
    obtain frame msk where fm: "fm = (frame, msk)" by (cases fm)
    show ?case
    proof (cases "np_any_positive msk")
      case True
      then show ?thesis
        by (simp add: fm Cons.IH inpaint_frame_log)
    next
      case False
      then show ?thesis
        by (simp add: fm Cons.IH inpainted_zero_mask invokes_model_def)
    qed
  qed
qed

lemma inpainter_process_video_quiet:
  "quiet cb \<Longrightarrow>
   inpainter_process_video ext self frames masks cb log =
     (Inr (map (inpainted ext self) (zip frames masks)),
      log @ filter (invokes_model self) (zip frames masks))"
  by (simp add: inpainter_process_video_def batch_loop_quiet)

text \<open>
  Claim C2.  For frames and masks of equal length, and a progress callback that does not raise
  (the pipeline passes none), the batch call returns one frame per input frame and returns every
  frame whose mask is all zero unchanged; the model is invoked exactly with the (frame, mask)
  pairs whose mask has a nonzero pixel (with none when no model is loaded), so never with a
  frame whose mask is all zero.
\<close>

theorem zero_mask_frames_pass_through:
  assumes "length frames = length masks" and "quiet cb"
  shows "\<exists>results calls.
           inpainter_process_video ext self frames masks cb log = (Inr results, log @ calls)
           \<and> length results = length frames
           \<and> (\<forall>i < length frames. \<not> np_any_positive (masks ! i) \<longrightarrow> results ! i = frames ! i)
           \<and> calls = filter (invokes_model self) (zip frames masks)
           \<and> (\<forall>i < length frames. \<not> np_any_positive (masks ! i) \<longrightarrow> (frames ! i, masks ! i) \<notin> set calls)
           \<and> list_all (\<lambda>(frame, msk). np_any_positive msk) calls"
proof -
  let ?results = "map (inpainted ext self) (zip frames masks)"
  let ?calls = "filter (invokes_model self) (zip frames masks)"
  have len: "length ?results = length frames"
    using assms(1) by simp
  have pass: "?results ! i = frames ! i" if "i < length frames" "\<not> np_any_positive (masks ! i)" for i
    using that assms(1) by (simp add: inpainted_zero_mask)
  have pos: "list_all (\<lambda>(frame, msk). np_any_positive msk) ?calls"
    by (auto simp: list_all_iff invokes_model_def)
  have never: "(frames ! i, masks ! i) \<notin> set ?calls" if "\<not> np_any_positive (masks ! i)" for i
    using that by (auto simp: invokes_model_def)
  from len pass pos never show ?thesis
    unfolding inpainter_process_video_quiet [OF assms(2)] by blast
qed

theorem zero_mask_frames_pass_through_witness:
  "length [example_frame, example_frame] = length [[[0]], [[255 :: 8 word]]]
   \<and> quiet None
   \<and> (\<exists>results calls.
         inpainter_process_video example_externals (new_LamaInpainter example_externals)
           [example_frame, example_frame] [[[0]], [[255]]] None [] = (Inr results, [] @ calls)
         \<and> length results = 2
         \<and> results ! 0 = example_frame
         \<and> calls = [(example_frame, [[255]])])"
proof -
  have len: "length [example_frame, example_frame] = length [[[0]], [[255 :: 8 word]]]"
    by simp
  have calls: "filter (invokes_model (new_LamaInpainter example_externals))
                 (zip [example_frame, example_frame] [[[0]], [[255 :: 8 word]]])
               = [(example_frame, [[255]])]"
    by (simp add: invokes_model_def np_any_positive_def new_LamaInpainter_def example_externals_def)
  have zero: "\<not> np_any_positive ([[[0]], [[255 :: 8 word]]] ! 0)"
    by (simp add: np_any_positive_def)
  have q: "quiet None"
    by (simp add: quiet_def)
  from zero_mask_frames_pass_through [OF len q, of example_externals
      "new_LamaInpainter example_externals" "[]"]
  obtain results cs where
    r: "inpainter_process_video example_externals (new_LamaInpainter example_externals)
          [example_frame, example_frame] [[[0]], [[255]]] None [] = (Inr results, [] @ cs)" and
    l: "length results = length [example_frame, example_frame]" and
    p: "\<forall>i < length [example_frame, example_frame].
          \<not> np_any_positive ([[[0]], [[255 :: 8 word]]] ! i)
          \<longrightarrow> results ! i = [example_frame, example_frame] ! i" and
    c: "cs = filter (invokes_model (new_LamaInpainter example_externals))
               (zip [example_frame, example_frame] [[[0]], [[255 :: 8 word]]])"
    by blast
  from p zero have "results ! 0 = example_frame"
    by auto
  with r l c calls len q show ?thesis
    by auto
qed

section \<open>Properties of the pipeline\<close>


lemma temp_output_differs: "p @ ''.temp.avi'' \<noteq> (p :: string)"
  by simp

lemma fold_max_mem: "fold max ks (k :: int) \<in> set (k # ks)"
  unfolding fold_max_is_Max by (rule Max_in) simp_all

lemma processor_get_zones_total:
  assumes "keys_are_numbers kfs"
  shows "\<exists>zs. processor_get_zones_at_frame kfs idx = Inr zs"
proof -
  from assms obtain d where d: "int_keys kfs [] = Inr d"
    by (auto simp: keys_are_numbers_def split: sum.splits)
  show ?thesis
  proof (cases "filter (\<lambda>k. k \<le> idx) (dict_keys d)")
    case Nil
    then show ?thesis
      by (simp add: processor_get_zones_at_frame_def d)
  next
    case (Cons k ks)
    have "fold max ks k \<in> set (k # ks)" by (rule fold_max_mem)
    then have "fold max ks k \<in> set (filter (\<lambda>k. k \<le> idx) (dict_keys d))"
      by (simp only: Cons)
    then have "fold max ks k \<in> fst ` set d"
      by (auto simp: dict_keys_def)
    then obtain zs where "map_of d (fold max ks k) = Some zs"
      by (metis domD dom_map_of_conv_image_fst)
    then show ?thesis
      by (simp add: processor_get_zones_at_frame_def d Cons)
  qed
qed

text \<open>
  The module-level \<open>get_zones_at_frame\<close> of the processor selects the keyframe as the
  manager does: with the keys converted by \<open>int\<close>, no key at or before the frame gives the
  empty list, and otherwise the zones under the greatest such key are returned.  The keys that
  \<open>to_dict\<close> writes are converted back to the keyframe numbers.
\<close>

lemma processor_get_zones_at_frame_greatest:
  assumes keys: "int_keys kfs [] = Inr d"
  shows "\<exists>zs. processor_get_zones_at_frame kfs f = Inr zs
           \<and> ((\<forall>k \<in> set (dict_keys d). \<not> k \<le> f) \<longrightarrow> zs = [])
           \<and> (\<forall>k. k \<in> set (dict_keys d) \<and> k \<le> f
                  \<and> (\<forall>k' \<in> set (dict_keys d). k' \<le> f \<longrightarrow> k' \<le> k)
                \<longrightarrow> map_of d k = Some zs)"
proof (cases "filter (\<lambda>k. k \<le> f) (dict_keys d)")
  case Nil
  then have none: "\<forall>k \<in> set (dict_keys d). \<not> k \<le> f"
    by (simp add: filter_empty_conv)
  from Nil have "processor_get_zones_at_frame kfs f = Inr []"
    by (simp add: processor_get_zones_at_frame_def keys)
  with none show ?thesis
    by auto
next
  case (Cons k ks)
  let ?S = "{k \<in> set (dict_keys d). k \<le> f}"
  have set_valid: "set (k # ks) = ?S"
    using Cons by (metis set_filter)
  have nearest: "fold max ks k = Max ?S"
    by (simp only: fold_max_is_Max set_valid)
  have ne: "?S \<noteq> {}"
    using set_valid by (metis list.set_intros(1) empty_iff)
  have fin: "finite ?S" by simp
  have max_in: "Max ?S \<in> ?S"
    using fin ne by (rule Max_in)
  then have "Max ?S \<in> fst ` set d"
    by (simp add: dict_keys_def)
  then obtain zs where zs: "map_of d (Max ?S) = Some zs"
    by (metis domD dom_map_of_conv_image_fst)
  from max_in have "kfs \<noteq> []"
    using keys by (auto simp: dict_keys_def)
  then have res: "processor_get_zones_at_frame kfs f = Inr zs"
    by (simp add: processor_get_zones_at_frame_def keys Cons nearest zs)
  have "map_of d k' = Some zs"
    if "k' \<in> set (dict_keys d)" "k' \<le> f" "\<forall>j \<in> set (dict_keys d). j \<le> f \<longrightarrow> j \<le> k'" for k'
  proof -
    from that(1,2) have "k' \<in> ?S" by simp
    with fin have "k' \<le> Max ?S" by (rule Max_ge)
    moreover from max_in that(3) have "Max ?S \<le> k'" by simp
    ultimately show ?thesis using zs by simp
  qed
  moreover from max_in have "\<not> (\<forall>k \<in> set (dict_keys d). \<not> k \<le> f)"
    by blast
  ultimately show ?thesis
    using res by blast
qed

lemma processor_keys_of_to_dict:
  assumes "distinct (map fst kvs)"
  shows "int_keys (map (\<lambda>(k, v). (py_str k, v)) kvs) [] = Inr kvs"
  using int_keys_py_str [of "[]" kvs] assms by simp

lemma frame_mask_total:
  assumes "keys_are_numbers kfs"
  shows "frame_mask kfs width height idx = Inr (the_mask kfs width height idx)"
proof -
  from processor_get_zones_total [OF assms] obtain zs where
    zs: "processor_get_zones_at_frame kfs idx = Inr zs"
    by blast
  have "\<exists>m. frame_mask kfs width height idx = Inr m"
    by (simp add: frame_mask_def zs create_mask_from_zones_def np_zeros_def)
  then show ?thesis
    by (auto simp: the_mask_def)
qed











lemma example_keys_are_numbers: "keys_are_numbers [(''1'', [(0 :: int, 0 :: int, 1 :: int, 1 :: int)])]"
  by (simp add: keys_are_numbers_def py_int_def py_strip_def is_space_def is_digit_def digit_val_def)

lemma example_source: "fs example_world ''in.mp4'' = Some (SourceVideo example_video)"
  by (simp add: example_world_def)













lemma cancelled_at_first_checkpoint:
  assumes src: "fs w source = Some (SourceVideo v)"
    and frames: "vframes v = f # rest"
    and keys: "keys_are_numbers kfs"
    and first: "cb 1 (vframe_count v) = Some e"
    and big: "1 < c"
  shows "process_video ext w source target kfs (Some cb) c
           = (Inl e, w\<lparr>fs := (fs w)(target @ ''.temp.avi'' \<mapsto> RawAvi []),
                       cap_open := True, out_open := True,
                       model_calls := [], batch_sizes := [], progress_seen := []\<rparr>)"
proof -
  note fm = frame_mask_total [OF keys, of "vwidth v" "vheight v" 0]
  show ?thesis
    using big
    by (simp add: process_video_def src frames frame_step_def fm first Let_def leave_def)
qed

text \<open>
  Claim C5.  A cancellation is to end the job with the outcome Cancelled, leave no file at the
  output path, remove the intermediate file and release the decoder and the writer.  In the code
  the \<open>InterruptedError\<close> raised by the progress callback leaves \<open>process_video\<close> from inside
  its loop, past \<open>cap.release()\<close>, \<open>out.release()\<close> and the removal of the intermediate file,
  which only the normal end of the function reaches.  Here the flag is set when the first frame
  is reported: the worker reports Cancelled and nothing is at the output path, but the
  intermediate file \<open>out.mp4.temp.avi\<close> exists and both handles are still open.
\<close>

theorem cancellation_leaves_intermediate_file_and_handles:
  "(case run example_externals True (\<lambda>c. True) example_worker example_world of
      (sigs, w') \<Rightarrow>
        sigs = [ErrorSignal Cancelled]
        \<and> fs w' ''out.mp4'' = None
        \<and> fs w' ''out.mp4.temp.avi'' = Some (RawAvi [])
        \<and> cap_open w' \<and> out_open w')"
proof -
  have fr: "vframes example_video = example_frame # [example_frame, example_frame]"
    by (simp add: example_video_def)
  have first: "progress_callback (\<lambda>c. True) 1 (vframe_count example_video) = Some InterruptedError"
    by (simp add: progress_callback_def)
  have big: "(1 :: int) < 50"
    by simp
  note pv = cancelled_at_first_checkpoint [where cb = "progress_callback (\<lambda>c. True)"
      and ext = example_externals and target = "''out.mp4''",
      OF example_source fr example_keys_are_numbers first big]
  have r: "run example_externals True (\<lambda>c. True) example_worker example_world
             = ([ErrorSignal Cancelled],
                example_world\<lparr>fs := (fs example_world)(''out.mp4'' @ ''.temp.avi'' \<mapsto> RawAvi []),
                  cap_open := True, out_open := True,
                  model_calls := [], batch_sizes := [], progress_seen := []\<rparr>)"
    by (simp add: run_def example_worker_def pv)
  show ?thesis
    unfolding r by (simp add: example_world_def)
qed

end
